theory Spec2Isabelle
  imports Main "HOL-Library.Sublist"
begin

section \<open>Strings and character classes\<close>

text \<open>
  A Python \<^verbatim>\<open>str\<close> is a sequence of Unicode code points, so a string is a list of
  code points (natural numbers). \<open>U\<close> writes an ASCII literal.
\<close>

type_synonym uchar = nat
type_synonym ustring = "nat list"

abbreviation U :: "string \<Rightarrow> ustring" where
  "U s \<equiv> map of_char s"

text \<open>
  The character tables of the interpreter (CPython 3.11, Unicode 14.0): \<^verbatim>\<open>\s\<close> and
  \<^verbatim>\<open>str.isspace\<close> agree; \<^verbatim>\<open>\d\<close> is the decimal digits of every script.
\<close>

definition is_space :: "uchar \<Rightarrow> bool" where
  "is_space c = ((9 \<le> c \<and> c \<le> 13) \<or> (28 \<le> c \<and> c \<le> 32) \<or> c = 133 \<or> c = 160
     \<or> c = 5760 \<or> (8192 \<le> c \<and> c \<le> 8202) \<or> c = 8232 \<or> c = 8233 \<or> c = 8239
     \<or> c = 8287 \<or> c = 12288)"

definition digit_ranges :: "(nat \<times> nat) list" where
  "digit_ranges = [(48, 57), (1632, 1641), (1776, 1785), (1984, 1993), (2406, 2415),
     (2534, 2543), (2662, 2671), (2790, 2799), (2918, 2927), (3046, 3055), (3174, 3183),
     (3302, 3311), (3430, 3439), (3558, 3567), (3664, 3673), (3792, 3801), (3872, 3881),
     (4160, 4169), (4240, 4249), (6112, 6121), (6160, 6169), (6470, 6479), (6608, 6617),
     (6784, 6793), (6800, 6809), (6992, 7001), (7088, 7097), (7232, 7241), (7248, 7257),
     (42528, 42537), (43216, 43225), (43264, 43273), (43472, 43481), (43504, 43513),
     (43600, 43609), (44016, 44025), (65296, 65305), (66720, 66729), (68912, 68921),
     (69734, 69743), (69872, 69881), (69942, 69951), (70096, 70105), (70384, 70393),
     (70736, 70745), (70864, 70873), (71248, 71257), (71360, 71369), (71472, 71481),
     (71904, 71913), (72016, 72025), (72784, 72793), (73040, 73049), (73120, 73129),
     (92768, 92777), (92864, 92873), (93008, 93017), (120782, 120831), (123200, 123209),
     (123632, 123641), (125264, 125273), (130032, 130041)]"

definition is_digit :: "uchar \<Rightarrow> bool" where
  "is_digit c = list_ex (\<lambda>(lo, hi). lo \<le> c \<and> c \<le> hi) digit_ranges"

text \<open>
  The class of the Cyrillic letters U+0430..U+044F and U+0451 (written as a range and a
  letter in the source) compiled with \<^verbatim>\<open>re.IGNORECASE\<close>: the letters themselves,
  their upper-case forms U+0410..U+042F and U+0401, and the case-folding variants
  U+1C80..U+1C86 that the compiler adds.
\<close>

definition is_letter_ic :: "uchar \<Rightarrow> bool" where
  "is_letter_ic c = (c = 1025 \<or> (1040 \<le> c \<and> c \<le> 1103) \<or> c = 1105 \<or> (7296 \<le> c \<and> c \<le> 7302))"

text \<open>The same class extended by \<^verbatim>\<open>0-9\<close>, with \<^verbatim>\<open>re.IGNORECASE\<close>.\<close>

definition is_letter_or_ascii_digit_ic :: "uchar \<Rightarrow> bool" where
  "is_letter_or_ascii_digit_ic c = (is_letter_ic c \<or> (48 \<le> c \<and> c \<le> 57))"

text \<open>\<^verbatim>\<open>.\<close> without \<^verbatim>\<open>re.DOTALL\<close>: anything but a line feed.\<close>

definition is_dot :: "uchar \<Rightarrow> bool" where
  "is_dot c = (c \<noteq> 10)"

text \<open>\<^verbatim>\<open>str.strip()\<close>.\<close>

definition strip :: "ustring \<Rightarrow> ustring" where
  "strip s = rev (dropWhile is_space (rev (dropWhile is_space s)))"

section \<open>The regular expressions of the \<^verbatim>\<open>re\<close> module\<close>

text \<open>
  A backtracking matcher. A match state is the text already consumed (reversed), the
  text still ahead and the capture groups. \<open>ms r s\<close> lists every way in which \<open>r\<close>
  matches at \<open>s\<close>, in the order in which the backtracking engine tries them: the head
  of the list is the match that \<^verbatim>\<open>re\<close> reports.
\<close>

record mstate =
  seen :: ustring
  ahead :: ustring
  caps :: "nat \<rightharpoonup> ustring"

datatype rx =
    Eps
  | Lit uchar
  | Cls "uchar \<Rightarrow> bool"
  | Bol
  | Eol
  | Seq rx rx
  | Alt rx rx
  | Star rx
  | LazyStar rx
  | Grp nat rx
  | Ahead rx
  | Behind "uchar \<Rightarrow> bool"

text \<open>The text of group \<open>n\<close>: what was consumed between the states \<open>s\<close> and \<open>t\<close>.\<close>

definition set_group :: "nat \<Rightarrow> mstate \<Rightarrow> mstate \<Rightarrow> mstate" where
  "set_group n s t =
     t\<lparr>caps := (caps t)(n \<mapsto> rev (take (length (seen t) - length (seen s)) (seen t)))\<rparr>"

function ms :: "rx \<Rightarrow> mstate \<Rightarrow> mstate list" where
  "ms Eps s = [s]"
| "ms (Lit c) s =
     (case ahead s of
        [] \<Rightarrow> []
      | x # xs \<Rightarrow> if x = c then [s\<lparr>seen := x # seen s, ahead := xs\<rparr>] else [])"
| "ms (Cls P) s =
     (case ahead s of
        [] \<Rightarrow> []
      | x # xs \<Rightarrow> if P x then [s\<lparr>seen := x # seen s, ahead := xs\<rparr>] else [])"
| "ms Bol s = (if seen s = [] then [s] else [])"
| "ms Eol s = (if ahead s = [] \<or> ahead s = [10] then [s] else [])"
| "ms (Seq a b) s = concat (map (ms b) (ms a s))"
| "ms (Alt a b) s = ms a s @ ms b s"
| "ms (Star a) s =
     concat (map (\<lambda>t. if length (ahead t) < length (ahead s) then ms (Star a) t else [])
                 (ms a s)) @ [s]"
| "ms (LazyStar a) s =
     s # concat (map (\<lambda>t. if length (ahead t) < length (ahead s) then ms (LazyStar a) t else [])
                     (ms a s))"
| "ms (Grp n a) s = map (set_group n s) (ms a s)"
| "ms (Ahead a) s = (if ms a s = [] then [] else [s])"
| "ms (Behind P) s = (case seen s of [] \<Rightarrow> [] | x # xs \<Rightarrow> if P x then [s] else [])"
  by pat_completeness auto
termination
  by (relation "measures [\<lambda>(r, s). size r, \<lambda>(r, s). length (ahead s)]") auto


text \<open>The state \<open>n\<close> characters further on.\<close>

definition advance :: "nat \<Rightarrow> mstate \<Rightarrow> mstate" where
  "advance n s = s\<lparr>seen := rev (take n (ahead s)) @ seen s, ahead := drop n (ahead s)\<rparr>"

text \<open>
  Every starred expression of this program consumes a character in each iteration, so
  the guard on the length (which gives termination) never cuts a match of its patterns.
\<close>

definition Plus :: "rx \<Rightarrow> rx" where
  "Plus a = Seq a (Star a)"

definition LazyPlus :: "rx \<Rightarrow> rx" where
  "LazyPlus a = Seq a (LazyStar a)"

definition Opt :: "rx \<Rightarrow> rx" where
  "Opt a = Alt a Eps"

definition seqs :: "rx list \<Rightarrow> rx" where
  "seqs rs = foldr Seq rs Eps"

definition lits :: "ustring \<Rightarrow> rx" where
  "lits s = seqs (map Lit s)"

definition at_pos :: "ustring \<Rightarrow> ustring \<Rightarrow> mstate" where
  "at_pos sn xs = \<lparr>seen = sn, ahead = xs, caps = Map.empty\<rparr>"

text \<open>\<^verbatim>\<open>re.match\<close>: the first match at the start of the string, or \<open>None\<close>.\<close>

definition re_match :: "rx \<Rightarrow> ustring \<Rightarrow> mstate option" where
  "re_match r s = (case ms r (at_pos [] s) of [] \<Rightarrow> None | t # _ \<Rightarrow> Some t)"

text \<open>
  \<^verbatim>\<open>m.group(n)\<close>. Every numbered group of the patterns below lies on the only path
  through its pattern, so a match always sets it.
\<close>

definition match_group :: "mstate \<Rightarrow> nat \<Rightarrow> ustring" where
  "match_group t n = (case caps t n of Some g \<Rightarrow> g | None \<Rightarrow> [])"

text \<open>\<^verbatim>\<open>re.search\<close>: the leftmost position with a match.\<close>

fun search_from :: "rx \<Rightarrow> ustring \<Rightarrow> ustring \<Rightarrow> mstate option" where
  "search_from r sn [] = (case ms r (at_pos sn []) of [] \<Rightarrow> None | t # _ \<Rightarrow> Some t)"
| "search_from r sn (x # xs) =
     (case ms r (at_pos sn (x # xs)) of
        [] \<Rightarrow> search_from r (x # sn) xs
      | t # _ \<Rightarrow> Some t)"

definition re_search :: "rx \<Rightarrow> ustring \<Rightarrow> mstate option" where
  "re_search r s = search_from r [] s"

text \<open>
  \<^verbatim>\<open>re.finditer\<close>, \<^verbatim>\<open>re.split\<close> and \<^verbatim>\<open>re.sub\<close> scan from left to right and go
  on after the end of each match. The patterns they are called with here match no empty
  string, so a match always moves forward.
\<close>

function finditer_from :: "rx \<Rightarrow> ustring \<Rightarrow> ustring \<Rightarrow> mstate list" where
  "finditer_from r sn [] = []"
| "finditer_from r sn (x # xs) =
     (case ms r (at_pos sn (x # xs)) of
        [] \<Rightarrow> finditer_from r (x # sn) xs
      | t # _ \<Rightarrow>
          if length (ahead t) < Suc (length xs) then t # finditer_from r (seen t) (ahead t)
          else finditer_from r (x # sn) xs)"
  by pat_completeness auto
termination
  by (relation "measure (\<lambda>(r, sn, xs). length xs)") auto

definition re_finditer :: "rx \<Rightarrow> ustring \<Rightarrow> mstate list" where
  "re_finditer r s = finditer_from r [] s"

function split_from :: "rx \<Rightarrow> ustring \<Rightarrow> ustring \<Rightarrow> ustring \<Rightarrow> ustring list" where
  "split_from r acc sn [] = [rev acc]"
| "split_from r acc sn (x # xs) =
     (case ms r (at_pos sn (x # xs)) of
        [] \<Rightarrow> split_from r (x # acc) (x # sn) xs
      | t # _ \<Rightarrow>
          if length (ahead t) < Suc (length xs) then rev acc # split_from r [] (seen t) (ahead t)
          else split_from r (x # acc) (x # sn) xs)"
  by pat_completeness auto
termination
  by (relation "measure (\<lambda>(r, acc, sn, xs). length xs)") auto

definition re_split :: "rx \<Rightarrow> ustring \<Rightarrow> ustring list" where
  "re_split r s = split_from r [] [] s"

function sub_from :: "rx \<Rightarrow> ustring \<Rightarrow> ustring \<Rightarrow> ustring \<Rightarrow> ustring" where
  "sub_from r repl sn [] = []"
| "sub_from r repl sn (x # xs) =
     (case ms r (at_pos sn (x # xs)) of
        [] \<Rightarrow> x # sub_from r repl (x # sn) xs
      | t # _ \<Rightarrow>
          if length (ahead t) < Suc (length xs) then repl @ sub_from r repl (seen t) (ahead t)
          else x # sub_from r repl (x # sn) xs)"
  by pat_completeness auto
termination
  by (relation "measure (\<lambda>(r, repl, sn, xs). length xs)") auto

definition re_sub :: "rx \<Rightarrow> ustring \<Rightarrow> ustring \<Rightarrow> ustring" where
  "re_sub r repl s = sub_from r repl [] s"

section \<open>The patterns of the module\<close>

text \<open>Code points: 9 tab, 32 space, 41 \<^verbatim>\<open>)\<close>, 46 \<^verbatim>\<open>.\<close>, 59 \<^verbatim>\<open>;\<close>.\<close>

definition lookahead_variant_end :: "rx \<Rightarrow> rx" where
  "lookahead_variant_end marker =
     Ahead (Alt (seqs [Plus (Cls is_space), marker, Lit 41]) (Alt Eol (Alt (Lit 46) (Lit 59))))"

text \<open>\<^verbatim>\<open>(?:^|\s+)(\d+)\)\s*([^;.]+?)(?=(?:\s+\d+\)|$|\.|;))\<close>\<close>

definition NUMBERED_VARIANT :: rx where
  "NUMBERED_VARIANT =
     seqs [Alt Bol (Plus (Cls is_space)), Grp 1 (Plus (Cls is_digit)), Lit 41,
           Star (Cls is_space), Grp 2 (LazyPlus (Cls (\<lambda>c. c \<noteq> 59 \<and> c \<noteq> 46))),
           lookahead_variant_end (Plus (Cls is_digit))]"

text \<open>\<^verbatim>\<open>(?:^|\s+)([L])\)\s*([^;]*?)(?=(?:\s+[L]\)|$|\.|;))\<close>, \<^verbatim>\<open>L\<close> the letter class;
  the module only uses it with \<^verbatim>\<open>re.IGNORECASE\<close>.\<close>

definition LETTER_VARIANT :: rx where
  "LETTER_VARIANT =
     seqs [Alt Bol (Plus (Cls is_space)), Grp 1 (Cls is_letter_ic), Lit 41,
           Star (Cls is_space), Grp 2 (LazyStar (Cls (\<lambda>c. c \<noteq> 59))),
           lookahead_variant_end (Cls is_letter_ic)]"

text \<open>\<^verbatim>\<open>^(\d+)\.\s*(\d+)\)\s*(.+)\<close>\<close>

definition INLINE_NUMBERED :: rx where
  "INLINE_NUMBERED =
     seqs [Bol, Grp 1 (Plus (Cls is_digit)), Lit 46, Star (Cls is_space),
           Grp 2 (Plus (Cls is_digit)), Lit 41, Star (Cls is_space), Grp 3 (Plus (Cls is_dot))]"

text \<open>\<^verbatim>\<open>^(\d+)\.\s*([L])\)\s*(.+)\<close>, with \<^verbatim>\<open>re.IGNORECASE\<close>.\<close>

definition INLINE_LETTER :: rx where
  "INLINE_LETTER =
     seqs [Bol, Grp 1 (Plus (Cls is_digit)), Lit 46, Star (Cls is_space),
           Grp 2 (Cls is_letter_ic), Lit 41, Star (Cls is_space), Grp 3 (Plus (Cls is_dot))]"

text \<open>\<^verbatim>\<open>^\s*(\d+)\)\s+(.+)\<close>\<close>

definition NEW_LINE_NUMBERED :: rx where
  "NEW_LINE_NUMBERED =
     seqs [Bol, Star (Cls is_space), Grp 1 (Plus (Cls is_digit)), Lit 41,
           Plus (Cls is_space), Grp 2 (Plus (Cls is_dot))]"

text \<open>\<^verbatim>\<open>^\s*([L])\)\s*(.+)\<close>, with \<^verbatim>\<open>re.IGNORECASE\<close>.\<close>

definition NEW_LINE_LETTER :: rx where
  "NEW_LINE_LETTER =
     seqs [Bol, Star (Cls is_space), Grp 1 (Cls is_letter_ic), Lit 41,
           Star (Cls is_space), Grp 2 (Plus (Cls is_dot))]"

text \<open>The patterns written in place in the functions.\<close>

text \<open>\<^verbatim>\<open>\s+\<close>\<close>

definition rx_spaces :: rx where
  "rx_spaces = Plus (Cls is_space)"

text \<open>\<^verbatim>\<open>^\d+\.\d+\.\<close>\<close>

definition rx_three_level :: rx where
  "rx_three_level = seqs [Bol, Plus (Cls is_digit), Lit 46, Plus (Cls is_digit), Lit 46]"

text \<open>\<^verbatim>\<open>^(\d+)\.\s*(.*)\<close>\<close>

definition rx_main :: rx where
  "rx_main =
     seqs [Bol, Grp 1 (Plus (Cls is_digit)), Lit 46, Star (Cls is_space),
           Grp 2 (Star (Cls is_dot))]"

text \<open>\<^verbatim>\<open>^{current_main_id}\.\d+\.\<close>: the main number is a run of digits, which stand for
  themselves in a pattern.\<close>

definition rx_header :: "ustring \<Rightarrow> rx" where
  "rx_header current = seqs [Bol, lits current, Lit 46, Plus (Cls is_digit), Lit 46]"

text \<open>\<^verbatim>\<open>(?<=\.)\s+(?=\d+\.)\<close>\<close>

definition rx_answer_split :: rx where
  "rx_answer_split =
     seqs [Behind (\<lambda>c. c = 46), Plus (Cls is_space), Ahead (seqs [Plus (Cls is_digit), Lit 46])]"

text \<open>\<^verbatim>\<open>(\d+)\.(.+)\<close>\<close>

definition rx_task_answer :: rx where
  "rx_task_answer = seqs [Grp 1 (Plus (Cls is_digit)), Lit 46, Grp 2 (Plus (Cls is_dot))]"

text \<open>\<^verbatim>\<open>^\s*[L0-9]\)\<close>, with \<^verbatim>\<open>re.IGNORECASE\<close>.\<close>

definition rx_variant_marker :: rx where
  "rx_variant_marker = seqs [Bol, Star (Cls is_space), Cls is_letter_or_ascii_digit_ic, Lit 41]"

text \<open>\<^verbatim>\<open>\.$\<close>\<close>

definition rx_final_dot :: rx where
  "rx_final_dot = seqs [Lit 46, Eol]"

text \<open>\<^verbatim>\<open>^\d+(\.\d+)*[\.\s\t]+\<close>\<close>

definition rx_toc_prefix :: rx where
  "rx_toc_prefix =
     seqs [Bol, Plus (Cls is_digit), Star (Grp 1 (Seq (Lit 46) (Plus (Cls is_digit)))),
           Plus (Cls (\<lambda>c. c = 46 \<or> is_space c \<or> c = 9))]"

text \<open>\<^verbatim>\<open>^(\d+(?:\.\d+)*)[\.\s\t]+(.+?)(?:\s+\d+)?$\<close>\<close>

definition rx_section :: rx where
  "rx_section =
     seqs [Bol, Grp 1 (Seq (Plus (Cls is_digit)) (Star (Seq (Lit 46) (Plus (Cls is_digit))))),
           Plus (Cls (\<lambda>c. c = 46 \<or> is_space c \<or> c = 9)), Grp 2 (LazyPlus (Cls is_dot)),
           Opt (Seq (Plus (Cls is_space)) (Plus (Cls is_digit))), Eol]"


section \<open>The table of contents: \<^verbatim>\<open>extract_toc\<close>\<close>

text \<open>
  An entry of \<^verbatim>\<open>toc\<close> while the scan runs; \<open>temp\<close> is the dotted section number,
  removed before the list is returned.
\<close>

record toc_item =
  item_id :: nat
  name :: ustring
  parent :: nat
  temp :: ustring

record toc_state =
  toc :: "toc_item list"
  inside_toc :: bool
  current_id :: nat

text \<open>The heading that opens the table of contents (ten Cyrillic letters).\<close>

definition toc_heading :: ustring where
  "toc_heading = [1054, 1075, 1083, 1072, 1074, 1083, 1077, 1085, 1080, 1077]"

text \<open>\<^verbatim>\<open>sub in s\<close>\<close>

fun contains :: "ustring \<Rightarrow> ustring \<Rightarrow> bool" where
  "contains sub [] = (sub = [])"
| "contains sub (x # xs) = (prefix sub (x # xs) \<or> contains sub xs)"

text \<open>\<^verbatim>\<open>s.rsplit('.', 1)[0]\<close>: the text before the last dot, all of \<open>s\<close> without one.\<close>

definition rsplit_dot_head :: "ustring \<Rightarrow> ustring" where
  "rsplit_dot_head s =
     (if 46 \<in> set s then rev (tl (dropWhile (\<lambda>c. c \<noteq> 46) (rev s))) else s)"

text \<open>\<^verbatim>\<open>next((item['id'] for item in toc if item.get('temp') == key), 0)\<close>\<close>

definition first_id_with :: "ustring \<Rightarrow> toc_item list \<Rightarrow> nat" where
  "first_id_with key items =
     (case find (\<lambda>item. temp item = key) items of Some item \<Rightarrow> item_id item | None \<Rightarrow> 0)"

definition find_parent :: "ustring \<Rightarrow> toc_item list \<Rightarrow> nat" where
  "find_parent section_num items =
     (if 46 \<in> set section_num then first_id_with (rsplit_dot_head section_num) items else 0)"

text \<open>
  The loop over the paragraphs; a paragraph is given by its text (the concatenation of
  its text nodes). \<^verbatim>\<open>break\<close> returns the state as it is.
\<close>

fun toc_loop :: "ustring list \<Rightarrow> toc_state \<Rightarrow> toc_state" where
  "toc_loop [] st = st"
| "toc_loop (p # ps) st =
     (let text = strip p in
      if contains toc_heading text then toc_loop ps (st\<lparr>inside_toc := True\<rparr>)
      else if inside_toc st \<and> re_match rx_toc_prefix text \<noteq> None then
        (case re_match rx_section text of
           Some section_match \<Rightarrow>
             (let section_num = match_group section_match 1;
                  section_name = strip (match_group section_match 2);
                  item = \<lparr>item_id = current_id st, name = section_name,
                          parent = find_parent section_num (toc st), temp = section_num\<rparr>
              in toc_loop ps (st\<lparr>toc := toc st @ [item], current_id := current_id st + 1\<rparr>))
         | None \<Rightarrow> toc_loop ps st)
      else if inside_toc st \<and> re_match rx_toc_prefix text = None then st
      else toc_loop ps st)"

definition toc_items :: "ustring list \<Rightarrow> toc_item list" where
  "toc_items paragraphs = toc (toc_loop paragraphs \<lparr>toc = [], inside_toc = False, current_id = 1\<rparr>)"

text \<open>The returned entries: \<^verbatim>\<open>id\<close>, \<^verbatim>\<open>name\<close>, \<^verbatim>\<open>parent\<close>.\<close>

definition extract_toc :: "ustring list \<Rightarrow> (nat \<times> ustring \<times> nat) list" where
  "extract_toc paragraphs = map (\<lambda>item. (item_id item, name item, parent item)) (toc_items paragraphs)"

section \<open>The answers: \<^verbatim>\<open>extract_answers_from_line\<close>\<close>

type_synonym answers = "ustring \<rightharpoonup> ustring"

text \<open>
  The loop over the two variant patterns with its \<^verbatim>\<open>else\<close> clause, which runs when
  neither pattern finds a variant.
\<close>

fun variant_answers :: "rx list \<Rightarrow> ustring \<Rightarrow> ustring \<Rightarrow> answers \<Rightarrow> answers" where
  "variant_answers [] task_num answer_text answers =
     (if answer_text \<noteq> [] \<and> re_search rx_variant_marker answer_text = None
      then answers(task_num \<mapsto> strip (re_sub rx_final_dot [] answer_text))
      else answers)"
| "variant_answers (pattern # patterns) task_num answer_text answers =
     (let variants = re_finditer pattern answer_text in
      if variants \<noteq> [] then
        foldl (\<lambda>a var_match. a(task_num @ [46] @ match_group var_match 1 \<mapsto> strip (match_group var_match 2)))
              answers variants
      else variant_answers patterns task_num answer_text answers)"

definition part_answers :: "ustring \<Rightarrow> answers \<Rightarrow> answers" where
  "part_answers part answers =
     (case re_match rx_task_answer part of
        None \<Rightarrow> answers
      | Some task_match \<Rightarrow>
          variant_answers [NUMBERED_VARIANT, LETTER_VARIANT]
            (match_group task_match 1) (strip (match_group task_match 2)) answers)"

definition extract_answers_from_line :: "ustring \<Rightarrow> answers" where
  "extract_answers_from_line line =
     foldl (\<lambda>answers part. part_answers part answers) Map.empty (re_split rx_answer_split line)"

section \<open>The tasks: \<^verbatim>\<open>create_task\<close> and \<^verbatim>\<open>extract_tasks_from_docx\<close>\<close>

record task_rec =
  id_tasks_book :: ustring
  task :: ustring
  answer :: ustring
  classes :: ustring
  topic_id :: int
  level :: int

text \<open>The default answer (eleven Cyrillic letters) and the heading of the answers.\<close>

definition no_answer :: ustring where
  "no_answer = [1054, 1090, 1089, 1091, 1090, 1089, 1090, 1074, 1091, 1077, 1090]"

definition answers_heading :: ustring where
  "answers_heading =
     [1054, 1090, 1074, 1077, 1090, 1099, 32, 1080, 32, 1089, 1086, 1074, 1077, 1090, 1099]"

text \<open>A variant that is \<^verbatim>\<open>None\<close> or empty is false in the conditional expression.\<close>

definition create_task :: "ustring \<Rightarrow> ustring option \<Rightarrow> ustring \<Rightarrow> bool \<Rightarrow> task_rec" where
  "create_task main_id variant task_text is_subtask =
     \<lparr>id_tasks_book =
        (case variant of
           None \<Rightarrow> main_id
         | Some v \<Rightarrow> if v \<noteq> [] then main_id @ [46] @ v else main_id),
      task = (if is_subtask then 9 # task_text else task_text),
      answer = no_answer,
      classes = U ''5;6'',
      topic_id = 1,
      level = 1\<rparr>"

record scan_state =
  tasks :: "task_rec list"
  current_main_id :: "ustring option"
  answers_section :: bool
  all_answers :: answers

text \<open>\<^verbatim>\<open>re.sub(r'\s+', ' ', line.strip())\<close>\<close>

definition normalize_line :: "ustring \<Rightarrow> ustring" where
  "normalize_line line = re_sub rx_spaces [32] (strip line)"

text \<open>
  The loop over \<open>INLINE_LETTER\<close> and \<open>INLINE_NUMBERED\<close>: the record of the first
  pattern that matches, \<open>None\<close> when the \<^verbatim>\<open>else\<close> clause of the loop is to run.
\<close>

fun inline_variant :: "(rx \<times> nat) list \<Rightarrow> ustring \<Rightarrow> ustring \<Rightarrow> task_rec option" where
  "inline_variant [] line main_id = None"
| "inline_variant ((pattern, group_idx) # patterns) line main_id =
     (case re_match pattern line of
        Some variant_match \<Rightarrow>
          Some (create_task main_id (Some (match_group variant_match group_idx))
                  (strip (match_group variant_match 3)) True)
      | None \<Rightarrow> inline_variant patterns line main_id)"

text \<open>
  The loop over \<open>NEW_LINE_LETTER\<close> and \<open>NEW_LINE_NUMBERED\<close>: a match counts only with
  a current main number (a string that is not empty).
\<close>

fun new_line_variant :: "(rx \<times> nat) list \<Rightarrow> ustring \<Rightarrow> scan_state \<Rightarrow> scan_state" where
  "new_line_variant [] line st = st"
| "new_line_variant ((pattern, group_idx) # patterns) line st =
     (case (re_match pattern line, current_main_id st) of
        (Some variant_match, Some main_id) \<Rightarrow>
          if main_id \<noteq> [] then
            st\<lparr>tasks := tasks st @
                 [create_task main_id (Some (match_group variant_match group_idx))
                    (strip (match_group variant_match 2)) True]\<rparr>
          else new_line_variant patterns line st
      | _ \<Rightarrow> new_line_variant patterns line st)"

text \<open>
  The body of the loop over \<^verbatim>\<open>enumerate(lines)\<close>, for the index \<open>i\<close> and the line
  \<open>raw\<close> at it. The look at \<^verbatim>\<open>lines[i + 1]\<close> is guarded by \<^verbatim>\<open>i + 1 < len(lines)\<close>.
\<close>

definition loop_body :: "ustring list \<Rightarrow> nat \<Rightarrow> ustring \<Rightarrow> scan_state \<Rightarrow> scan_state" where
  "loop_body lines i raw st =
     (let line = normalize_line raw in
      if line = answers_heading then st\<lparr>answers_section := True\<rparr>
      else if \<not> answers_section st then
        (if re_match rx_three_level line \<noteq> None then st
         else
           (case re_match rx_main line of
              Some main_match \<Rightarrow>
                (let main_id = match_group main_match 1;
                     suffix = strip (match_group main_match 2);
                     st1 = st\<lparr>current_main_id := Some main_id\<rparr>;
                     is_header =
                       (i + 1 < length lines \<and>
                        re_match (rx_header main_id) (strip (lines ! (i + 1))) \<noteq> None)
                 in if is_header then st1
                    else
                      (case inline_variant [(INLINE_LETTER, 2), (INLINE_NUMBERED, 2)] line main_id of
                         Some t \<Rightarrow> st1\<lparr>tasks := tasks st1 @ [t]\<rparr>
                       | None \<Rightarrow>
                           if suffix \<noteq> [] then
                             st1\<lparr>tasks := tasks st1 @ [create_task main_id None suffix False]\<rparr>
                           else st1))
            | None \<Rightarrow>
                new_line_variant [(NEW_LINE_LETTER, 1), (NEW_LINE_NUMBERED, 1)] line st))
      else st\<lparr>all_answers := all_answers st ++ extract_answers_from_line line\<rparr>)"

definition initial_state :: scan_state where
  "initial_state =
     \<lparr>tasks = [], current_main_id = None, answers_section = False, all_answers = Map.empty\<rparr>"

text \<open>The last loop: a task whose id has an answer gets it.\<close>

definition merge_answers :: "answers \<Rightarrow> task_rec list \<Rightarrow> task_rec list" where
  "merge_answers m ts =
     map (\<lambda>t. case m (id_tasks_book t) of Some a \<Rightarrow> t\<lparr>answer := a\<rparr> | None \<Rightarrow> t) ts"

text \<open>\<^verbatim>\<open>[p.text.strip() for p in doc.paragraphs if p.text.strip()]\<close>\<close>

definition stripped_lines :: "ustring list \<Rightarrow> ustring list" where
  "stripped_lines paragraphs = map strip (filter (\<lambda>p. strip p \<noteq> []) paragraphs)"

text \<open>
  The state after the first \<open>n\<close> iterations of the loop over \<^verbatim>\<open>enumerate(lines)\<close>;
  the loop ends after \<open>length lines\<close> of them.
\<close>

definition scan_prefix :: "ustring list \<Rightarrow> nat \<Rightarrow> scan_state" where
  "scan_prefix lines n =
     foldl (\<lambda>st (i, line). loop_body lines i line st) initial_state (take n (enumerate 0 lines))"

definition scan_document :: "ustring list \<Rightarrow> scan_state" where
  "scan_document paragraphs =
     (let lines = stripped_lines paragraphs in scan_prefix lines (length lines))"

definition extract_tasks_from_docx :: "ustring list \<Rightarrow> task_rec list" where
  "extract_tasks_from_docx paragraphs =
     (let st = scan_document paragraphs in merge_answers (all_answers st) (tasks st))"

section \<open>Auxiliary notions of the proofs\<close>

text \<open>The state of \<open>rx_main\<close> behind the main number \<open>N\<close> and its dot.\<close>

definition main_state :: "ustring \<Rightarrow> ustring \<Rightarrow> mstate" where
  "main_state N r = \<lparr>seen = 46 # rev N, ahead = r, caps = [1 \<mapsto> N]\<rparr>"

text \<open>
  The invariant of the scan of the table of contents: identifiers count the entries from
  1, and the parent of an entry is looked up among the entries before it.
\<close>

definition toc_inv :: "toc_item list \<Rightarrow> bool" where
  "toc_inv items =
     (\<forall>j<length items. item_id (items ! j) = j + 1 \<and>
        parent (items ! j) = find_parent (temp (items ! j)) (take j items))"

section \<open>Properties of the matcher\<close>

text \<open>The definitions that evaluate the model on a given input.\<close>

lemmas rx_defs = NUMBERED_VARIANT_def LETTER_VARIANT_def INLINE_NUMBERED_def INLINE_LETTER_def
  NEW_LINE_NUMBERED_def NEW_LINE_LETTER_def rx_spaces_def rx_three_level_def rx_main_def
  rx_header_def rx_answer_split_def rx_task_answer_def rx_variant_marker_def rx_final_dot_def
  rx_toc_prefix_def rx_section_def lookahead_variant_end_def seqs_def lits_def Plus_def
  LazyPlus_def Opt_def

lemmas cls_defs = is_digit_def digit_ranges_def is_space_def is_dot_def is_letter_ic_def
  is_letter_or_ascii_digit_ic_def

lemmas re_defs = re_match_def re_search_def re_finditer_def re_split_def re_sub_def at_pos_def
  match_group_def strip_def set_group_def ms.simps

lemmas toc_defs = extract_toc_def toc_items_def toc_heading_def find_parent_def
  first_id_with_def rsplit_dot_head_def Let_def

lemmas task_defs = extract_tasks_from_docx_def scan_document_def scan_prefix_def stripped_lines_def
  merge_answers_def initial_state_def loop_body_def normalize_line_def create_task_def
  answers_heading_def no_answer_def extract_answers_from_line_def part_answers_def Let_def

lemma advance_0 [simp]: "advance 0 s = s"
  by (simp add: advance_def)

lemma advance_simps [simp]:
  "ahead (advance n s) = drop n (ahead s)"
  "seen (advance n s) = rev (take n (ahead s)) @ seen s"
  "caps (advance n s) = caps s"
  by (simp_all add: advance_def)

lemma advance_Suc:
  "ahead s = x # xs \<Longrightarrow> advance (Suc n) s = advance n (s\<lparr>seen := x # seen s, ahead := xs\<rparr>)"
  by (simp add: advance_def)

lemma ms_star_cls:
  "ms (Star (Cls P)) s =
     map (\<lambda>n. advance n s) (rev [0..<Suc (length (takeWhile P (ahead s)))])"
proof (induction "ahead s" arbitrary: s)
  case Nil
  then show ?case by simp
next
  case (Cons x xs)
  let ?t = "s\<lparr>seen := x # seen s, ahead := xs\<rparr>"
  have ah: "ahead s = x # xs" using Cons.hyps(2) by simp
  show ?case
  proof (cases "P x")
    case False
    with ah show ?thesis by simp
  next
    case True
    have IH: "ms (Star (Cls P)) ?t =
       map (\<lambda>n. advance n ?t) (rev [0..<Suc (length (takeWhile P xs))])"
      using Cons.hyps(1) [of ?t] by simp
    have "ms (Star (Cls P)) s = ms (Star (Cls P)) ?t @ [s]"
      using ah True by simp
    also have "\<dots> = map (\<lambda>n. advance (Suc n) s) (rev [0..<Suc (length (takeWhile P xs))]) @ [advance 0 s]"
      unfolding IH using ah by (simp add: advance_Suc del: upt_Suc ms.simps)
    also have "\<dots> = map (\<lambda>n. advance n s) (rev (0 # map Suc [0..<Suc (length (takeWhile P xs))]))"
      by (simp add: rev_map del: upt_Suc)
    also have "0 # map Suc [0..<Suc (length (takeWhile P xs))] = [0..<Suc (Suc (length (takeWhile P xs)))]"
      by (simp add: map_Suc_upt upt_conv_Cons del: upt_Suc)
    finally show ?thesis using ah True by simp
  qed
qed

lemma ms_lazystar_cls:
  "ms (LazyStar (Cls P)) s =
     map (\<lambda>n. advance n s) [0..<Suc (length (takeWhile P (ahead s)))]"
proof (induction "ahead s" arbitrary: s)
  case Nil
  then show ?case by simp
next
  case (Cons x xs)
  let ?t = "s\<lparr>seen := x # seen s, ahead := xs\<rparr>"
  have ah: "ahead s = x # xs" using Cons.hyps(2) by simp
  show ?case
  proof (cases "P x")
    case False
    with ah show ?thesis by simp
  next
    case True
    have IH: "ms (LazyStar (Cls P)) ?t =
       map (\<lambda>n. advance n ?t) [0..<Suc (length (takeWhile P xs))]"
      using Cons.hyps(1) [of ?t] by simp
    have "ms (LazyStar (Cls P)) s = s # ms (LazyStar (Cls P)) ?t"
      using ah True by simp
    also have "\<dots> = advance 0 s # map (\<lambda>n. advance (Suc n) s) [0..<Suc (length (takeWhile P xs))]"
      unfolding IH using ah by (simp add: advance_Suc del: upt_Suc ms.simps)
    also have "\<dots> = map (\<lambda>n. advance n s) (0 # map Suc [0..<Suc (length (takeWhile P xs))])"
      by (simp del: upt_Suc)
    also have "0 # map Suc [0..<Suc (length (takeWhile P xs))] = [0..<Suc (Suc (length (takeWhile P xs)))]"
      by (simp add: map_Suc_upt upt_conv_Cons del: upt_Suc)
    finally show ?thesis using ah True by simp
  qed
qed

lemma ms_plus_cls:
  "ms (Plus (Cls P)) s =
     map (\<lambda>n. advance n s) (rev [1..<Suc (length (takeWhile P (ahead s)))])"
proof (cases "ahead s")
  case Nil
  then show ?thesis by (simp add: Plus_def)
next
  case (Cons x xs)
  let ?t = "s\<lparr>seen := x # seen s, ahead := xs\<rparr>"
  show ?thesis
  proof (cases "P x")
    case False
    with Cons show ?thesis by (simp add: Plus_def)
  next
    case True
    have "ms (Plus (Cls P)) s = ms (Star (Cls P)) ?t"
      using Cons True by (simp add: Plus_def)
    also have "\<dots> = map (\<lambda>n. advance (Suc n) s) (rev [0..<Suc (length (takeWhile P xs))])"
      using Cons by (simp add: ms_star_cls advance_Suc del: upt_Suc ms.simps)
    also have "\<dots> = map (\<lambda>n. advance n s) (rev (map Suc [0..<Suc (length (takeWhile P xs))]))"
      by (simp add: rev_map del: upt_Suc)
    also have "map Suc [0..<Suc (length (takeWhile P xs))] = [1..<Suc (Suc (length (takeWhile P xs)))]"
      by (simp add: map_Suc_upt del: upt_Suc)
    finally show ?thesis using Cons True by simp
  qed
qed


lemma concat_rev_upt_last:
  assumes "a \<le> k" and "\<And>n. a \<le> n \<Longrightarrow> n < k \<Longrightarrow> f n = []"
  shows "concat (map f (rev [a..<Suc k])) = f k"
proof -
  have "concat (map f (rev [a..<k])) = []"
    using assms(2) by (auto simp del: upt_Suc)
  with assms(1) show ?thesis by simp
qed

lemma takeWhile_nth:
  assumes "n < length (takeWhile P xs)"
  shows "drop n xs = xs ! n # drop (Suc n) xs \<and> P (xs ! n)"
proof -
  have n: "n < length xs"
    using assms length_takeWhile_le [of P xs] by simp
  have "takeWhile P xs ! n = xs ! n" using assms by (rule takeWhile_nth)
  moreover have "P (takeWhile P xs ! n)"
    using assms by (meson nth_mem set_takeWhileD)
  ultimately show ?thesis using n by (simp add: Cons_nth_drop_Suc)
qed

lemma take_drop_takeWhile [simp]:
  "take (length (takeWhile P xs)) xs = takeWhile P xs"
  "drop (length (takeWhile P xs)) xs = dropWhile P xs"
  by (simp_all add: takeWhile_eq_take [symmetric] dropWhile_eq_drop [symmetric])

text \<open>A greedy run of a class before an expression that fails on the characters of the class.\<close>

lemma seq_star_cls:
  assumes rej: "\<And>t x xs. ahead t = x # xs \<Longrightarrow> P x \<Longrightarrow> ms R t = []"
  shows "ms (Seq (Star (Cls P)) R) s = ms R (advance (length (takeWhile P (ahead s))) s)"
proof -
  let ?k = "length (takeWhile P (ahead s))"
  have "ms (Seq (Star (Cls P)) R) s = concat (map (\<lambda>n. ms R (advance n s)) (rev [0..<Suc ?k]))"
    by (simp add: ms_star_cls comp_def del: ms.simps(8) upt_Suc)
  also have "\<dots> = ms R (advance ?k s)"
  proof (rule concat_rev_upt_last)
    fix n assume "n < ?k"
    then have "drop n (ahead s) = ahead s ! n # drop (Suc n) (ahead s)" "P (ahead s ! n)"
      using takeWhile_nth [of n P "ahead s"] by simp_all
    then show "ms R (advance n s) = []" by (intro rej [of _ "ahead s ! n"]) simp_all
  qed simp
  finally show ?thesis .
qed

lemma seq_plus_cls:
  assumes rej: "\<And>t x xs. ahead t = x # xs \<Longrightarrow> P x \<Longrightarrow> ms R t = []"
  shows "ms (Seq (Plus (Cls P)) R) s =
    (if takeWhile P (ahead s) = [] then []
     else ms R (advance (length (takeWhile P (ahead s))) s))"
proof -
  let ?k = "length (takeWhile P (ahead s))"
  have eq: "ms (Seq (Plus (Cls P)) R) s = concat (map (\<lambda>n. ms R (advance n s)) (rev [1..<Suc ?k]))"
    by (simp add: ms_plus_cls comp_def del: upt_Suc)
  show ?thesis
  proof (cases "takeWhile P (ahead s) = []")
    case True
    with eq show ?thesis by simp
  next
    case False
    then have k: "1 \<le> ?k" by (simp add: Suc_le_eq)
    have "concat (map (\<lambda>n. ms R (advance n s)) (rev [1..<Suc ?k])) = ms R (advance ?k s)"
    proof (rule concat_rev_upt_last [OF k])
      fix n assume "n < ?k"
      then have "drop n (ahead s) = ahead s ! n # drop (Suc n) (ahead s)" "P (ahead s ! n)"
        using takeWhile_nth [of n P "ahead s"] by simp_all
      then show "ms R (advance n s) = []" by (intro rej [of _ "ahead s ! n"]) simp_all
    qed
    with eq False show ?thesis by simp
  qed
qed

lemma set_group_simps [simp]:
  "ahead (set_group g s t) = ahead t"
  "seen (set_group g s t) = seen t"
  by (simp_all add: set_group_def)

lemma set_group_advance:
  "set_group g s (advance n s) = (advance n s)\<lparr>caps := (caps s)(g \<mapsto> take n (ahead s))\<rparr>"
  by (simp add: set_group_def advance_def)

lemma seq_grp_plus_cls:
  assumes rej: "\<And>t x xs. ahead t = x # xs \<Longrightarrow> P x \<Longrightarrow> ms R t = []"
  shows "ms (Seq (Grp g (Plus (Cls P))) R) s =
    (if takeWhile P (ahead s) = [] then []
     else ms R ((advance (length (takeWhile P (ahead s))) s)
                  \<lparr>caps := (caps s)(g \<mapsto> takeWhile P (ahead s))\<rparr>))"
proof -
  let ?k = "length (takeWhile P (ahead s))"
  have eq: "ms (Seq (Grp g (Plus (Cls P))) R) s =
      concat (map (\<lambda>n. ms R (set_group g s (advance n s))) (rev [1..<Suc ?k]))"
    by (simp add: ms_plus_cls comp_def del: upt_Suc)
  show ?thesis
  proof (cases "takeWhile P (ahead s) = []")
    case True
    with eq show ?thesis by simp
  next
    case False
    then have k: "1 \<le> ?k" by (simp add: Suc_le_eq)
    have "concat (map (\<lambda>n. ms R (set_group g s (advance n s))) (rev [1..<Suc ?k]))
        = ms R (set_group g s (advance ?k s))"
    proof (rule concat_rev_upt_last [OF k])
      fix n assume "n < ?k"
      then have "drop n (ahead s) = ahead s ! n # drop (Suc n) (ahead s)" "P (ahead s ! n)"
        using takeWhile_nth [of n P "ahead s"] by simp_all
      then show "ms R (set_group g s (advance n s)) = []"
        by (intro rej [of _ "ahead s ! n"]) simp_all
    qed
    with eq False show ?thesis by (simp add: set_group_advance)
  qed
qed

text \<open>The first match of a sequence whose second part succeeds at the first match of the first.\<close>

lemma ms_seq_hd:
  assumes "ms a s \<noteq> []" and "ms b (hd (ms a s)) \<noteq> []"
  shows "ms (Seq a b) s \<noteq> [] \<and> hd (ms (Seq a b) s) = hd (ms b (hd (ms a s)))"
proof -
  from assms(1) obtain t ts where ts: "ms a s = t # ts" by (cases "ms a s") auto
  with assms(2) obtain u us where us: "ms b t = u # us" by (cases "ms b t") auto
  from ts us show ?thesis by simp
qed

lemma ms_star_cls_hd:
  "ms (Star (Cls P)) s \<noteq> [] \<and>
   hd (ms (Star (Cls P)) s) = advance (length (takeWhile P (ahead s))) s"
  by (simp add: ms_star_cls del: ms.simps(8))

lemma ms_plus_cls_hd:
  "takeWhile P (ahead s) \<noteq> [] \<Longrightarrow>
   ms (Plus (Cls P)) s \<noteq> [] \<and>
   hd (ms (Plus (Cls P)) s) = advance (length (takeWhile P (ahead s))) s"
  by (cases "takeWhile P (ahead s)") (simp_all add: ms_plus_cls)

lemma re_match_None: "re_match r s = None \<longleftrightarrow> ms r (at_pos [] s) = []"
  by (simp add: re_match_def split: list.splits)

lemma re_match_Some: "re_match r s = Some t \<longleftrightarrow> ms r (at_pos [] s) \<noteq> [] \<and> t = hd (ms r (at_pos [] s))"
  by (auto simp: re_match_def split: list.splits)



declare ms.simps [simp del]

lemma is_digit_bounds:
  "is_digit c \<Longrightarrow>
     (48 \<le> c \<and> c \<le> 57) \<or> (1632 \<le> c \<and> c \<le> 4249) \<or> (6112 \<le> c \<and> c \<le> 7257) \<or> 42528 \<le> c"
  by (simp add: is_digit_def digit_ranges_def) linarith

lemma digit_facts [simp]:
  "\<not> is_digit 46" "\<not> is_digit 41" "\<not> is_digit 1054" "\<not> is_digit 32"
  by (simp_all add: is_digit_def digit_ranges_def)

lemma space_not_digit: "is_space c \<Longrightarrow> \<not> is_digit c"
  by (auto simp: is_space_def dest!: is_digit_bounds)

lemma letter_not_digit: "is_letter_ic c \<Longrightarrow> \<not> is_digit c"
  by (auto simp: is_letter_ic_def dest!: is_digit_bounds)

lemma letter_not_space: "is_letter_ic c \<Longrightarrow> \<not> is_space c"
  by (auto simp: is_letter_ic_def is_space_def)

lemma not_space_dot: "\<not> is_space c \<Longrightarrow> is_dot c"
  by (auto simp: is_space_def is_dot_def)

lemma space_facts [simp]: "\<not> is_space 46" "\<not> is_space 41" "is_space 32" "is_space 10" "is_space 9"
  by (simp_all add: is_space_def)

lemma concat_map_ms_Eps [simp]: "concat (map (ms Eps) xs) = xs"
  by (induction xs) (simp_all add: ms.simps)

lemma ms_seq_Eps [simp]: "ms (Seq a Eps) s = ms a s"
  by (simp add: ms.simps)

lemma rej_lit: "ahead t = x # xs \<Longrightarrow> x \<noteq> c \<Longrightarrow> ms (Seq (Lit c) R) t = []"
  by (simp add: ms.simps)

lemma rej_digit_dot: "ahead t = x # xs \<Longrightarrow> is_digit x \<Longrightarrow> ms (Seq (Lit 46) R) t = []"
  by (rule rej_lit) auto


lemma ms_seq_bol: "ms (Seq Bol R) (at_pos [] line) = ms R (at_pos [] line)"
  by (simp add: at_pos_def ms.simps)

text \<open>The end of \<open>rx_main\<close>: optional space and the rest of the line.\<close>

lemma ms_space_rest:
  "ms (Seq (Star (Cls is_space)) (Seq (Grp g (Star (Cls is_dot))) Eps)) t \<noteq> [] \<and>
   caps (hd (ms (Seq (Star (Cls is_space)) (Seq (Grp g (Star (Cls is_dot))) Eps)) t))
     = (caps t)(g \<mapsto> takeWhile is_dot (dropWhile is_space (ahead t)))"
proof -
  let ?u = "advance (length (takeWhile is_space (ahead t))) t"
  let ?B = "Seq (Grp g (Star (Cls is_dot))) Eps"
  have B: "ms ?B ?u = map (set_group g ?u) (ms (Star (Cls is_dot)) ?u)"
    by (simp only: ms_seq_Eps ms.simps(10))
  have Bne: "ms ?B ?u \<noteq> []"
    unfolding B using ms_star_cls_hd [of is_dot ?u] by simp
  have Bhd: "hd (ms ?B ?u) = set_group g ?u (advance (length (takeWhile is_dot (ahead ?u))) ?u)"
    unfolding B using ms_star_cls_hd [of is_dot ?u] by (simp add: hd_map)
  have A: "ms (Star (Cls is_space)) t \<noteq> []" "hd (ms (Star (Cls is_space)) t) = ?u"
    using ms_star_cls_hd [of is_space t] by simp_all
  from ms_seq_hd [of "Star (Cls is_space)" t ?B] A Bne
  have "ms (Seq (Star (Cls is_space)) ?B) t \<noteq> []"
    "hd (ms (Seq (Star (Cls is_space)) ?B) t) = hd (ms ?B ?u)"
    by simp_all
  then show ?thesis
    unfolding Bhd by (simp add: set_group_advance)
qed

lemma ms_seq_lit_Nil: "ahead t = [] \<Longrightarrow> ms (Seq (Lit c) R) t = []"
  by (simp add: ms.simps)

lemma ms_seq_lit_Cons:
  "ahead t = x # xs \<Longrightarrow>
   ms (Seq (Lit c) R) t = (if x = c then ms R (t\<lparr>seen := x # seen t, ahead := xs\<rparr>) else [])"
  by (simp add: ms.simps)

lemma ms_grp_digits_dot:
  "ms (Seq (Grp 1 (Plus (Cls is_digit))) (Seq (Lit 46) T)) (at_pos [] line) =
     (if takeWhile is_digit line = [] then []
      else case dropWhile is_digit line of
             [] \<Rightarrow> []
           | x # r \<Rightarrow> if x = 46 then ms T (main_state (takeWhile is_digit line) r) else [])"
proof -
  let ?t = "(advance (length (takeWhile is_digit line)) (at_pos [] line))
                  \<lparr>caps := [1 \<mapsto> takeWhile is_digit line]\<rparr>"
  have 1: "ms (Seq (Grp 1 (Plus (Cls is_digit))) (Seq (Lit 46) T)) (at_pos [] line) =
     (if takeWhile is_digit line = [] then [] else ms (Seq (Lit 46) T) ?t)"
    by (subst seq_grp_plus_cls [OF rej_digit_dot]) (simp_all add: at_pos_def)
  have ah: "ahead ?t = dropWhile is_digit line" by (simp add: at_pos_def)
  have 2: "ms (Seq (Lit 46) T) ?t =
     (case dropWhile is_digit line of
             [] \<Rightarrow> []
           | x # r \<Rightarrow> if x = 46 then ms T (main_state (takeWhile is_digit line) r) else [])"
  proof (cases "dropWhile is_digit line")
    case Nil
    with ah show ?thesis by (simp only: ms_seq_lit_Nil list.case)
  next
    case (Cons x r)
    with ah have "ahead ?t = x # r" by simp
    from ms_seq_lit_Cons [OF this, of 46 T] show ?thesis
      unfolding Cons by (simp add: main_state_def advance_def at_pos_def)
  qed
  show ?thesis unfolding 1 2 ..
qed

lemma ms_rx_main:
  "ms rx_main (at_pos [] line) =
     (if takeWhile is_digit line = [] then []
      else case dropWhile is_digit line of
             [] \<Rightarrow> []
           | x # r \<Rightarrow>
               if x = 46 then
                 ms (Seq (Star (Cls is_space)) (Seq (Grp 2 (Star (Cls is_dot))) Eps))
                    (main_state (takeWhile is_digit line) r)
               else [])"
proof -
  let ?T = "Seq (Star (Cls is_space)) (Seq (Grp 2 (Star (Cls is_dot))) Eps)"
  have "ms rx_main (at_pos [] line) = ms (Seq (Grp 1 (Plus (Cls is_digit))) (Seq (Lit 46) ?T)) (at_pos [] line)"
    unfolding rx_main_def seqs_def by (simp only: foldr.simps comp_def id_apply ms_seq_bol)
  then show ?thesis by (simp only: ms_grp_digits_dot)
qed

lemma main_match_iff:
  "re_match rx_main line \<noteq> None \<longleftrightarrow>
     takeWhile is_digit line \<noteq> [] \<and> (\<exists>r. dropWhile is_digit line = 46 # r)"
proof (cases "takeWhile is_digit line = []")
  case True
  then show ?thesis unfolding re_match_None ms_rx_main by simp
next
  case False
  show ?thesis
  proof (cases "dropWhile is_digit line")
    case Nil
    show ?thesis unfolding re_match_None ms_rx_main Nil by simp
  next
    case (Cons x r)
    show ?thesis unfolding re_match_None ms_rx_main Cons
      using False ms_space_rest [of 2] by simp
  qed
qed

lemma main_match_groups:
  assumes "re_match rx_main line = Some mm"
  shows "match_group mm 1 = takeWhile is_digit line \<and>
         match_group mm 2 = takeWhile is_dot (dropWhile is_space (tl (dropWhile is_digit line)))"
proof -
  from assms have "re_match rx_main line \<noteq> None" by simp
  then obtain r where r: "takeWhile is_digit line \<noteq> []" "dropWhile is_digit line = 46 # r"
    unfolding main_match_iff by blast
  let ?t = "main_state (takeWhile is_digit line) r"
  let ?T = "Seq (Star (Cls is_space)) (Seq (Grp 2 (Star (Cls is_dot))) Eps)"
  have "ms rx_main (at_pos [] line) = ms ?T ?t"
    unfolding ms_rx_main r using r(1) by simp
  with assms have "mm = hd (ms ?T ?t)" by (simp add: re_match_Some)
  with ms_space_rest [of 2 ?t] r show ?thesis by (simp add: match_group_def main_state_def)
qed

lemma digits_prefix:
  assumes "\<forall>c\<in>set N. is_digit c" and "\<not> is_digit x"
  shows "takeWhile is_digit (N @ x # r) = N" and "dropWhile is_digit (N @ x # r) = x # r"
  using assms by (simp_all add: takeWhile_append2 dropWhile_append2)

lemma ms_digits_dot:
  "ms (Seq (Plus (Cls is_digit)) (Seq (Lit 46) T)) s =
     (if takeWhile is_digit (ahead s) = [] then []
      else case dropWhile is_digit (ahead s) of
             [] \<Rightarrow> []
           | x # r \<Rightarrow>
               if x = 46 then ms T (s\<lparr>seen := 46 # rev (takeWhile is_digit (ahead s)) @ seen s, ahead := r\<rparr>)
               else [])"
proof -
  let ?t = "advance (length (takeWhile is_digit (ahead s))) s"
  have 1: "ms (Seq (Plus (Cls is_digit)) (Seq (Lit 46) T)) s =
     (if takeWhile is_digit (ahead s) = [] then [] else ms (Seq (Lit 46) T) ?t)"
    by (rule seq_plus_cls [OF rej_digit_dot])
  have ah: "ahead ?t = dropWhile is_digit (ahead s)" by simp
  have 2: "ms (Seq (Lit 46) T) ?t =
     (case dropWhile is_digit (ahead s) of
             [] \<Rightarrow> []
           | x # r \<Rightarrow> if x = 46 then ms T (s\<lparr>seen := 46 # rev (takeWhile is_digit (ahead s)) @ seen s, ahead := r\<rparr>) else [])"
  proof (cases "dropWhile is_digit (ahead s)")
    case Nil
    with ah show ?thesis by (simp only: ms_seq_lit_Nil list.case)
  next
    case (Cons x r)
    with ah have "ahead ?t = x # r" by simp
    from ms_seq_lit_Cons [OF this, of 46 T] show ?thesis
      unfolding Cons by (simp add: advance_def)
  qed
  show ?thesis unfolding 1 2 ..
qed

lemma ms_rx_three_level:
  "ms rx_three_level (at_pos [] line) =
     (if takeWhile is_digit line = [] then []
      else case dropWhile is_digit line of
         [] \<Rightarrow> []
       | x # r \<Rightarrow>
           if x = 46 then
             (if takeWhile is_digit r = [] then []
              else case dropWhile is_digit r of
                 [] \<Rightarrow> []
               | y # r' \<Rightarrow>
                   if y = 46 then
                     [\<lparr>seen = 46 # rev (takeWhile is_digit r) @ 46 # rev (takeWhile is_digit line),
                       ahead = r', caps = Map.empty\<rparr>]
                   else [])
           else [])"
proof -
  have 1: "ms rx_three_level (at_pos [] line) =
      ms (Seq (Plus (Cls is_digit)) (Seq (Lit 46) (Seq (Plus (Cls is_digit)) (Seq (Lit 46) Eps))))
        (at_pos [] line)"
    unfolding rx_three_level_def seqs_def by (simp only: foldr.simps comp_def id_apply ms_seq_bol)
  show ?thesis
    unfolding 1 ms_digits_dot
    by (simp add: at_pos_def ms.simps(1) cong: list.case_cong if_cong)
qed

lemma three_level_iff:
  "re_match rx_three_level line \<noteq> None \<longleftrightarrow>
     takeWhile is_digit line \<noteq> [] \<and>
     (\<exists>r. dropWhile is_digit line = 46 # r \<and> takeWhile is_digit r \<noteq> [] \<and>
          (\<exists>r'. dropWhile is_digit r = 46 # r'))"
proof
  assume "re_match rx_three_level line \<noteq> None"
  then have ne: "ms rx_three_level (at_pos [] line) \<noteq> []" by (simp add: re_match_None)
  have a: "takeWhile is_digit line \<noteq> []"
    using ne unfolding ms_rx_three_level by (auto split: if_splits)
  obtain x r where r: "dropWhile is_digit line = x # r"
    using ne a unfolding ms_rx_three_level by (cases "dropWhile is_digit line") simp_all
  have x: "x = 46" and b: "takeWhile is_digit r \<noteq> []"
    using ne a unfolding ms_rx_three_level r by (auto split: if_splits)
  obtain y r' where r': "dropWhile is_digit r = y # r'"
    using ne a b x unfolding ms_rx_three_level r by (cases "dropWhile is_digit r") simp_all
  have "y = 46"
    using ne a b x unfolding ms_rx_three_level r by (auto simp: r' split: if_splits)
  with a r x b r' show "takeWhile is_digit line \<noteq> [] \<and>
     (\<exists>r. dropWhile is_digit line = 46 # r \<and> takeWhile is_digit r \<noteq> [] \<and>
          (\<exists>r'. dropWhile is_digit r = 46 # r'))" by simp
next
  assume "takeWhile is_digit line \<noteq> [] \<and>
     (\<exists>r. dropWhile is_digit line = 46 # r \<and> takeWhile is_digit r \<noteq> [] \<and>
          (\<exists>r'. dropWhile is_digit r = 46 # r'))"
  then obtain r r' where "takeWhile is_digit line \<noteq> []" "dropWhile is_digit line = 46 # r"
    "takeWhile is_digit r \<noteq> []" "dropWhile is_digit r = 46 # r'" by blast
  then show "re_match rx_three_level line \<noteq> None"
    unfolding re_match_None ms_rx_three_level by simp
qed

lemma ms_seq_grp_cls_Nil: "ahead t = [] \<Longrightarrow> ms (Seq (Grp g (Cls Q)) R) t = []"
  by (simp add: ms.simps)

lemma ms_seq_grp_cls_Cons:
  "ahead t = x # xs \<Longrightarrow>
   ms (Seq (Grp g (Cls Q)) R) t =
     (if Q x then ms R (t\<lparr>seen := x # seen t, ahead := xs, caps := (caps t)(g \<mapsto> [x])\<rparr>) else [])"
  by (simp add: ms.simps set_group_def)

lemma rej_space_letter:
  "ahead t = x # xs \<Longrightarrow> is_space x \<Longrightarrow> ms (Seq (Grp g (Cls is_letter_ic)) R) t = []"
  using letter_not_space [of x] by (auto simp: ms_seq_grp_cls_Cons)

lemma rej_digit_paren: "ahead t = x # xs \<Longrightarrow> is_digit x \<Longrightarrow> ms (Seq (Lit 41) R) t = []"
  by (rule rej_lit) auto

lemma rej_space_digits:
  "ahead t = x # xs \<Longrightarrow> is_space x \<Longrightarrow> ms (Seq (Grp g (Plus (Cls is_digit))) R) t = []"
  using space_not_digit [of x] by (simp add: seq_grp_plus_cls [OF rej_digit_paren] ms.simps Plus_def)

text \<open>The end of the variant patterns: optional space and a text that is not empty.\<close>

lemma ms_space_text:
  assumes "dropWhile is_space (ahead t) \<noteq> []"
  shows "ms (Seq (Star (Cls is_space)) (Seq (Grp g (Plus (Cls is_dot))) Eps)) t \<noteq> [] \<and>
   caps (hd (ms (Seq (Star (Cls is_space)) (Seq (Grp g (Plus (Cls is_dot))) Eps)) t))
     = (caps t)(g \<mapsto> takeWhile is_dot (dropWhile is_space (ahead t)))"
proof -
  let ?u = "advance (length (takeWhile is_space (ahead t))) t"
  let ?B = "Seq (Grp g (Plus (Cls is_dot))) Eps"
  have "\<not> is_space (hd (dropWhile is_space (ahead t)))"
    using assms by (rule hd_dropWhile)
  then have "is_dot (hd (dropWhile is_space (ahead t)))" by (rule not_space_dot)
  with assms have tw: "takeWhile is_dot (ahead ?u) \<noteq> []"
    by (cases "dropWhile is_space (ahead t)") simp_all
  have B: "ms ?B ?u = map (set_group g ?u) (ms (Plus (Cls is_dot)) ?u)"
    by (simp only: ms_seq_Eps ms.simps(10))
  have Bne: "ms ?B ?u \<noteq> []"
    unfolding B using ms_plus_cls_hd [OF tw] by simp
  have Bhd: "hd (ms ?B ?u) = set_group g ?u (advance (length (takeWhile is_dot (ahead ?u))) ?u)"
    unfolding B using ms_plus_cls_hd [OF tw] by (simp add: hd_map)
  have A: "ms (Star (Cls is_space)) t \<noteq> []" "hd (ms (Star (Cls is_space)) t) = ?u"
    using ms_star_cls_hd [of is_space t] by simp_all
  from ms_seq_hd [of "Star (Cls is_space)" t ?B] A Bne
  have "ms (Seq (Star (Cls is_space)) ?B) t \<noteq> []"
    "hd (ms (Seq (Star (Cls is_space)) ?B) t) = hd (ms ?B ?u)"
    by simp_all
  then show ?thesis
    unfolding Bhd by (simp add: set_group_advance)
qed

text \<open>\<open>NEW_LINE_LETTER\<close>\<close>

lemma ms_NEW_LINE_LETTER:
  "ms NEW_LINE_LETTER (at_pos [] line) =
     (case dropWhile is_space line of
        [] \<Rightarrow> []
      | x # r \<Rightarrow>
          if is_letter_ic x then
            ms (Seq (Lit 41) (Seq (Star (Cls is_space)) (Seq (Grp 2 (Plus (Cls is_dot))) Eps)))
               \<lparr>seen = x # rev (takeWhile is_space line), ahead = r, caps = [1 \<mapsto> [x]]\<rparr>
          else [])"
proof -
  let ?T = "Seq (Lit 41) (Seq (Star (Cls is_space)) (Seq (Grp 2 (Plus (Cls is_dot))) Eps))"
  let ?u = "advance (length (takeWhile is_space line)) (at_pos [] line)"
  have 1: "ms NEW_LINE_LETTER (at_pos [] line) =
      ms (Seq (Star (Cls is_space)) (Seq (Grp 1 (Cls is_letter_ic)) ?T)) (at_pos [] line)"
    unfolding NEW_LINE_LETTER_def seqs_def by (simp only: foldr.simps comp_def id_apply ms_seq_bol)
  have 2: "\<dots> = ms (Seq (Grp 1 (Cls is_letter_ic)) ?T) ?u"
    by (subst seq_star_cls [OF rej_space_letter]) (simp_all add: at_pos_def)
  have ah: "ahead ?u = dropWhile is_space line" by (simp add: at_pos_def)
  show ?thesis
  proof (cases "dropWhile is_space line")
    case Nil
    with ah have "ahead ?u = []" by simp
    from ms_seq_grp_cls_Nil [OF this] show ?thesis unfolding 1 2 Nil by simp
  next
    case (Cons x r)
    with ah have "ahead ?u = x # r" by simp
    from ms_seq_grp_cls_Cons [OF this, of 1 is_letter_ic ?T] show ?thesis
      unfolding 1 2 Cons by (simp add: advance_def at_pos_def)
  qed
qed

lemma new_line_letter_shape:
  assumes "re_match NEW_LINE_LETTER line \<noteq> None"
  shows "\<exists>x r. dropWhile is_space line = x # r \<and> is_letter_ic x"
proof -
  from assms have ne: "ms NEW_LINE_LETTER (at_pos [] line) \<noteq> []" by (simp add: re_match_None)
  obtain x r where r: "dropWhile is_space line = x # r"
    using ne unfolding ms_NEW_LINE_LETTER by (cases "dropWhile is_space line") simp_all
  have "is_letter_ic x"
    using ne unfolding ms_NEW_LINE_LETTER r by (auto split: if_splits)
  with r show ?thesis by blast
qed

lemma new_line_letter_match:
  assumes "is_letter_ic l" and "dropWhile is_space rest \<noteq> []"
  shows "\<exists>vm. re_match NEW_LINE_LETTER (l # 41 # rest) = Some vm \<and> match_group vm 1 = [l] \<and>
           match_group vm 2 = takeWhile is_dot (dropWhile is_space rest)"
proof -
  let ?line = "l # 41 # rest"
  let ?T = "Seq (Star (Cls is_space)) (Seq (Grp 2 (Plus (Cls is_dot))) Eps)"
  let ?t = "\<lparr>seen = [41, l], ahead = rest, caps = [1 \<mapsto> [l]]\<rparr>"
  have ns: "\<not> is_space l" using assms(1) by (rule letter_not_space)
  have "ms NEW_LINE_LETTER (at_pos [] ?line) = ms ?T ?t"
    unfolding ms_NEW_LINE_LETTER using ns assms(1) by (simp add: ms_seq_lit_Cons)
  with ms_space_text [of ?t 2] assms(2) show ?thesis
    by (simp add: re_match_Some match_group_def)
qed

text \<open>\<open>NEW_LINE_NUMBERED\<close>\<close>

lemma new_line_numbered_shape:
  assumes "re_match NEW_LINE_NUMBERED line \<noteq> None"
  shows "takeWhile is_digit (dropWhile is_space line) \<noteq> [] \<and>
         (\<exists>r. dropWhile is_digit (dropWhile is_space line) = 41 # r)"
proof -
  let ?T = "Seq (Plus (Cls is_space)) (Seq (Grp 2 (Plus (Cls is_dot))) Eps)"
  let ?u = "advance (length (takeWhile is_space line)) (at_pos [] line)"
  let ?v = "(advance (length (takeWhile is_digit (ahead ?u))) ?u)
              \<lparr>caps := (caps ?u)(1 \<mapsto> takeWhile is_digit (ahead ?u))\<rparr>"
  from assms have ne: "ms NEW_LINE_NUMBERED (at_pos [] line) \<noteq> []" by (simp add: re_match_None)
  have 1: "ms NEW_LINE_NUMBERED (at_pos [] line) =
      ms (Seq (Star (Cls is_space)) (Seq (Grp 1 (Plus (Cls is_digit))) (Seq (Lit 41) ?T))) (at_pos [] line)"
    unfolding NEW_LINE_NUMBERED_def seqs_def by (simp only: foldr.simps comp_def id_apply ms_seq_bol)
  have 2: "\<dots> = ms (Seq (Grp 1 (Plus (Cls is_digit))) (Seq (Lit 41) ?T)) ?u"
    by (subst seq_star_cls [OF rej_space_digits]) (simp_all add: at_pos_def)
  have 3: "\<dots> = (if takeWhile is_digit (ahead ?u) = [] then [] else ms (Seq (Lit 41) ?T) ?v)"
    by (rule seq_grp_plus_cls [OF rej_digit_paren])
  have ah: "ahead ?u = dropWhile is_space line" by (simp add: at_pos_def)
  have a: "takeWhile is_digit (dropWhile is_space line) \<noteq> []"
    using ne unfolding 1 2 3 ah by (auto split: if_splits)
  then have ne': "ms (Seq (Lit 41) ?T) ?v \<noteq> []"
    using ne unfolding 1 2 3 ah by simp
  have ahv: "ahead ?v = dropWhile is_digit (dropWhile is_space line)" by (simp add: at_pos_def)
  obtain x r where r: "dropWhile is_digit (dropWhile is_space line) = x # r"
    using ne' ahv ms_seq_lit_Nil [of ?v 41 ?T]
    by (cases "dropWhile is_digit (dropWhile is_space line)") auto
  with ahv have "ahead ?v = x # r" by simp
  from ms_seq_lit_Cons [OF this, of 41 ?T] ne' have "x = 41" by (auto split: if_splits)
  with a r show ?thesis by simp
qed

lemma takeWhile_digit_space:
  assumes "takeWhile is_space line \<noteq> []"
  shows "takeWhile is_digit line = []"
proof (cases line)
  case Nil
  then show ?thesis by simp
next
  case (Cons x xs)
  with assms have "is_space x" by (auto split: if_splits)
  then have "\<not> is_digit x" by (rule space_not_digit)
  with Cons show ?thesis by simp
qed

lemma new_line_not_main:
  assumes "re_match NEW_LINE_LETTER line \<noteq> None \<or> re_match NEW_LINE_NUMBERED line \<noteq> None"
  shows "re_match rx_main line = None \<and> re_match rx_three_level line = None"
proof -
  have "takeWhile is_digit line = [] \<or> (\<exists>r. dropWhile is_digit line = 41 # r)"
  proof (cases "takeWhile is_space line = []")
    case False
    then show ?thesis by (simp add: takeWhile_digit_space)
  next
    case True
    then have dw: "dropWhile is_space line = line"
      by (metis takeWhile_dropWhile_id append_Nil)
    from assms show ?thesis
    proof
      assume "re_match NEW_LINE_LETTER line \<noteq> None"
      then obtain x r where "line = x # r" "is_letter_ic x"
        using new_line_letter_shape [of line] dw by auto
      then show ?thesis using letter_not_digit [of x] by simp
    next
      assume "re_match NEW_LINE_NUMBERED line \<noteq> None"
      then show ?thesis using new_line_numbered_shape [of line] dw by simp
    qed
  qed
  then have "\<not> (takeWhile is_digit line \<noteq> [] \<and> (\<exists>r. dropWhile is_digit line = 46 # r))"
    by auto
  then show ?thesis
    using main_match_iff [of line] three_level_iff [of line] by blast
qed

subsection \<open>Normalized lines\<close>

lemma ms_rx_spaces:
  "ms rx_spaces s = map (\<lambda>n. advance n s) (rev [1..<Suc (length (takeWhile is_space (ahead s)))])"
  by (simp add: rx_spaces_def ms_plus_cls)

lemma ms_rx_spaces_Nil: "ms rx_spaces (at_pos sn (x # xs)) = [] \<Longrightarrow> \<not> is_space x"
  by (auto simp: ms_rx_spaces at_pos_def split: if_splits)

lemma sub_spaces_set:
  "c \<in> set (sub_from rx_spaces [32] sn xs) \<Longrightarrow> is_space c \<Longrightarrow> c = 32"
proof (induction rx_spaces "[32::nat]" sn xs rule: sub_from.induct)
  case (1 sn)
  then show ?case by simp
next
  case (2 sn x xs)
  show ?case
  proof (cases "ms rx_spaces (at_pos sn (x # xs))")
    case Nil
    then have "\<not> is_space x" by (rule ms_rx_spaces_Nil)
    with 2 Nil show ?thesis by auto
  next
    case (Cons t ts)
    show ?thesis
    proof (cases "length (ahead t) < Suc (length xs)")
      case True
      with 2 Cons show ?thesis by auto
    next
      case False
      have "t \<in> set (ms rx_spaces (at_pos sn (x # xs)))" using Cons by simp
      then obtain n where "1 \<le> n" "t = advance n (at_pos sn (x # xs))"
        unfolding ms_rx_spaces by auto
      then have "length (ahead t) < Suc (length xs)" by (simp add: at_pos_def)
      with False show ?thesis by simp
    qed
  qed
qed

lemma normalize_line_spaces: "c \<in> set (normalize_line raw) \<Longrightarrow> is_space c \<Longrightarrow> c = 32"
  unfolding normalize_line_def re_sub_def by (rule sub_spaces_set)

lemma normalize_line_dot: "c \<in> set (normalize_line raw) \<Longrightarrow> is_dot c"
  using normalize_line_spaces [of c raw] by (auto simp: is_dot_def)

lemma takeWhile_dot_id: "\<forall>c\<in>set xs. is_dot c \<Longrightarrow> takeWhile is_dot xs = xs"
  by (simp add: takeWhile_eq_all_conv)

lemma strip_dropWhile: "strip (dropWhile is_space r) = strip r"
  by (simp add: strip_def)

lemma strip_nonempty: "strip r \<noteq> [] \<Longrightarrow> dropWhile is_space r \<noteq> []"
  by (auto simp: strip_def dest: set_dropWhileD)

lemma strip_empty: "strip r = [] \<Longrightarrow> dropWhile is_space r = []"
  unfolding strip_def
  by (metis dropWhile_eq_Nil_conv rev_is_Nil_conv set_rev dropWhile_idem hd_dropWhile
      last_in_set hd_rev set_dropWhileD)


subsection \<open>The inline patterns\<close>

lemma ms_space_letter_paren:
  "ms (Seq (Star (Cls is_space)) (Seq (Grp g (Cls is_letter_ic)) (Seq (Lit 41) T))) t =
     (case dropWhile is_space (ahead t) of
        [] \<Rightarrow> []
      | y # r \<Rightarrow>
          if is_letter_ic y then
            (case r of
               [] \<Rightarrow> []
             | z # r' \<Rightarrow>
                 if z = 41 then
                   ms T (t\<lparr>caps := (caps t)(g \<mapsto> [y]),
                           seen := 41 # y # rev (takeWhile is_space (ahead t)) @ seen t,
                           ahead := r'\<rparr>)
                 else [])
          else [])"
proof -
  let ?u = "advance (length (takeWhile is_space (ahead t))) t"
  have 1: "ms (Seq (Star (Cls is_space)) (Seq (Grp g (Cls is_letter_ic)) (Seq (Lit 41) T))) t =
      ms (Seq (Grp g (Cls is_letter_ic)) (Seq (Lit 41) T)) ?u"
    by (rule seq_star_cls [OF rej_space_letter])
  have ah: "ahead ?u = dropWhile is_space (ahead t)" by simp
  show ?thesis
  proof (cases "dropWhile is_space (ahead t)")
    case Nil
    with ah have "ahead ?u = []" by simp
    from ms_seq_grp_cls_Nil [OF this] show ?thesis unfolding 1 Nil by simp
  next
    case (Cons y r)
    with ah have u: "ahead ?u = y # r" by simp
    let ?v = "?u\<lparr>seen := y # seen ?u, ahead := r, caps := (caps ?u)(g \<mapsto> [y])\<rparr>"
    have 2: "ms (Seq (Grp g (Cls is_letter_ic)) (Seq (Lit 41) T)) ?u =
        (if is_letter_ic y then ms (Seq (Lit 41) T) ?v else [])"
      by (rule ms_seq_grp_cls_Cons [OF u])
    show ?thesis
    proof (cases r)
      case Nil
      then have "ahead ?v = []" by simp
      from ms_seq_lit_Nil [OF this] show ?thesis unfolding 1 2 Cons Nil by simp
    next
      case (Cons z r')
      then have "ahead ?v = z # r'" by simp
      then have 3: "ms (Seq (Lit 41) T) ?v =
          (if z = 41 then ms T (?v\<lparr>seen := z # seen ?v, ahead := r'\<rparr>) else [])"
        by (rule ms_seq_lit_Cons)
      have v: "?v\<lparr>seen := 41 # seen ?v, ahead := r'\<rparr> =
          t\<lparr>caps := (caps t)(g \<mapsto> [y]),
            seen := 41 # y # rev (takeWhile is_space (ahead t)) @ seen t, ahead := r'\<rparr>"
        by (simp add: advance_def)
      have "ms (Seq (Star (Cls is_space)) (Seq (Grp g (Cls is_letter_ic)) (Seq (Lit 41) T))) t =
          (if is_letter_ic y then
             (if z = 41 then
                ms T (t\<lparr>caps := (caps t)(g \<mapsto> [y]),
                        seen := 41 # y # rev (takeWhile is_space (ahead t)) @ seen t,
                        ahead := r'\<rparr>)
              else [])
           else [])"
        unfolding 1 2 3 using v by (auto simp: advance_def)
      then show ?thesis
        unfolding \<open>dropWhile is_space (ahead t) = y # r\<close> Cons by simp
    qed
  qed
qed

lemma ms_seq_grp_plus_Nil: "ahead u = [] \<Longrightarrow> ms (Seq (Grp g (Plus (Cls P))) R) u = []"
  by (simp add: ms.simps Plus_def)

lemma ms_INLINE_LETTER:
  "ms INLINE_LETTER (at_pos [] line) =
     ms (Seq (Grp 1 (Plus (Cls is_digit)))
          (Seq (Lit 46)
            (Seq (Star (Cls is_space))
              (Seq (Grp 2 (Cls is_letter_ic))
                (Seq (Lit 41) (Seq (Star (Cls is_space)) (Seq (Grp 3 (Plus (Cls is_dot))) Eps)))))))
        (at_pos [] line)"
  unfolding INLINE_LETTER_def seqs_def by (simp only: foldr.simps comp_def id_apply ms_seq_bol)

lemma ms_INLINE_NUMBERED:
  "ms INLINE_NUMBERED (at_pos [] line) =
     ms (Seq (Grp 1 (Plus (Cls is_digit)))
          (Seq (Lit 46)
            (Seq (Star (Cls is_space))
              (Seq (Grp 2 (Plus (Cls is_digit)))
                (Seq (Lit 41) (Seq (Star (Cls is_space)) (Seq (Grp 3 (Plus (Cls is_dot))) Eps)))))))
        (at_pos [] line)"
  unfolding INLINE_NUMBERED_def seqs_def by (simp only: foldr.simps comp_def id_apply ms_seq_bol)

lemma inline_letter_match:
  assumes "N \<noteq> []" and "\<forall>c\<in>set N. is_digit c" and "\<forall>c\<in>set sp. is_space c"
    and "is_letter_ic l" and "dropWhile is_space rest \<noteq> []"
  shows "\<exists>vm. re_match INLINE_LETTER (N @ 46 # sp @ l # 41 # rest) = Some vm \<and>
           match_group vm 2 = [l] \<and>
           match_group vm 3 = takeWhile is_dot (dropWhile is_space rest)"
proof -
  let ?line = "N @ 46 # sp @ l # 41 # rest"
  let ?T = "Seq (Star (Cls is_space)) (Seq (Grp 3 (Plus (Cls is_dot))) Eps)"
  let ?t = "\<lparr>seen = 41 # l # rev sp @ 46 # rev N, ahead = rest, caps = [1 \<mapsto> N, 2 \<mapsto> [l]]\<rparr>"
  have d: "takeWhile is_digit ?line = N" "dropWhile is_digit ?line = 46 # sp @ l # 41 # rest"
    using assms(2) by (simp_all add: digits_prefix)
  have ns: "\<not> is_space l" using assms(4) by (rule letter_not_space)
  have s: "takeWhile is_space (sp @ l # 41 # rest) = sp"
    "dropWhile is_space (sp @ l # 41 # rest) = l # 41 # rest"
    using assms(3) ns by (simp_all add: takeWhile_append2 dropWhile_append2)
  have "ms INLINE_LETTER (at_pos [] ?line) = ms ?T ?t"
    unfolding ms_INLINE_LETTER ms_grp_digits_dot d ms_space_letter_paren
    using assms(1,4) by (simp add: main_state_def s)
  with ms_space_text [of ?t 3] assms(5) show ?thesis
    by (simp add: re_match_Some match_group_def)
qed

lemma inline_none_without_text:
  assumes "takeWhile is_digit line \<noteq> []" and "dropWhile is_digit line = 46 # rest"
    and "dropWhile is_space rest = []"
  shows "re_match INLINE_LETTER line = None" and "re_match INLINE_NUMBERED line = None"
proof -
  show "re_match INLINE_LETTER line = None"
    unfolding re_match_None ms_INLINE_LETTER ms_grp_digits_dot ms_space_letter_paren
    using assms(1,2) by (simp add: main_state_def assms(3))
  let ?R = "Seq (Lit 41) (Seq (Star (Cls is_space)) (Seq (Grp 3 (Plus (Cls is_dot))) Eps))"
  let ?t = "main_state (takeWhile is_digit line) rest"
  let ?u = "advance (length (takeWhile is_space (ahead ?t))) ?t"
  have "ms (Seq (Star (Cls is_space)) (Seq (Grp 2 (Plus (Cls is_digit))) ?R)) ?t
      = ms (Seq (Grp 2 (Plus (Cls is_digit))) ?R) ?u"
    by (rule seq_star_cls [OF rej_space_digits])
  also have "\<dots> = []"
  proof -
    have u: "ahead ?u = []" by (simp add: main_state_def assms(3))
    show ?thesis using u by (rule ms_seq_grp_plus_Nil)
  qed
  finally show "re_match INLINE_NUMBERED line = None"
    unfolding re_match_None ms_INLINE_NUMBERED ms_grp_digits_dot using assms(1,2) by simp
qed

subsection \<open>A new line with a numbered sub-variant\<close>

lemma ms_spaces_text:
  assumes "takeWhile is_space (ahead t) \<noteq> []" and "dropWhile is_space (ahead t) \<noteq> []"
  shows "ms (Seq (Plus (Cls is_space)) (Seq (Grp g (Plus (Cls is_dot))) Eps)) t \<noteq> [] \<and>
   caps (hd (ms (Seq (Plus (Cls is_space)) (Seq (Grp g (Plus (Cls is_dot))) Eps)) t))
     = (caps t)(g \<mapsto> takeWhile is_dot (dropWhile is_space (ahead t)))"
proof -
  let ?u = "advance (length (takeWhile is_space (ahead t))) t"
  let ?B = "Seq (Grp g (Plus (Cls is_dot))) Eps"
  have "\<not> is_space (hd (dropWhile is_space (ahead t)))"
    using assms(2) by (rule hd_dropWhile)
  then have "is_dot (hd (dropWhile is_space (ahead t)))" by (rule not_space_dot)
  with assms(2) have tw: "takeWhile is_dot (ahead ?u) \<noteq> []"
    by (cases "dropWhile is_space (ahead t)") simp_all
  have B: "ms ?B ?u = map (set_group g ?u) (ms (Plus (Cls is_dot)) ?u)"
    by (simp only: ms_seq_Eps ms.simps(10))
  have Bne: "ms ?B ?u \<noteq> []"
    unfolding B using ms_plus_cls_hd [OF tw] by simp
  have Bhd: "hd (ms ?B ?u) = set_group g ?u (advance (length (takeWhile is_dot (ahead ?u))) ?u)"
    unfolding B using ms_plus_cls_hd [OF tw] by (simp add: hd_map)
  have A: "ms (Plus (Cls is_space)) t \<noteq> []" "hd (ms (Plus (Cls is_space)) t) = ?u"
    using ms_plus_cls_hd [OF assms(1)] by simp_all
  from ms_seq_hd [of "Plus (Cls is_space)" t ?B] A Bne
  have "ms (Seq (Plus (Cls is_space)) ?B) t \<noteq> []"
    "hd (ms (Seq (Plus (Cls is_space)) ?B) t) = hd (ms ?B ?u)"
    by simp_all
  then show ?thesis
    unfolding Bhd by (simp add: set_group_advance)
qed

lemma new_line_numbered_match:
  assumes "D \<noteq> []" and "\<forall>c\<in>set D. is_digit c"
    and "takeWhile is_space rest \<noteq> []" and "dropWhile is_space rest \<noteq> []"
  shows "\<exists>vm. re_match NEW_LINE_NUMBERED (D @ 41 # rest) = Some vm \<and> match_group vm 1 = D \<and>
           match_group vm 2 = takeWhile is_dot (dropWhile is_space rest)"
proof -
  let ?line = "D @ 41 # rest"
  let ?T = "Seq (Plus (Cls is_space)) (Seq (Grp 2 (Plus (Cls is_dot))) Eps)"
  let ?u = "advance (length (takeWhile is_space ?line)) (at_pos [] ?line)"
  let ?v = "(advance (length (takeWhile is_digit (ahead ?u))) ?u)
              \<lparr>caps := (caps ?u)(1 \<mapsto> takeWhile is_digit (ahead ?u))\<rparr>"
  let ?t = "\<lparr>seen = 41 # rev D, ahead = rest, caps = [1 \<mapsto> D]\<rparr>"
  obtain d ds where D: "D = d # ds" using assms(1) by (cases D) auto
  with assms(2) have "is_digit d" by simp
  then have "\<not> is_space d" using space_not_digit by blast
  with D have sp: "takeWhile is_space ?line = []" by simp
  have dg: "takeWhile is_digit ?line = D" "dropWhile is_digit ?line = 41 # rest"
    using assms(2) by (simp_all add: digits_prefix)
  have 1: "ms NEW_LINE_NUMBERED (at_pos [] ?line) =
      ms (Seq (Star (Cls is_space)) (Seq (Grp 1 (Plus (Cls is_digit))) (Seq (Lit 41) ?T))) (at_pos [] ?line)"
    unfolding NEW_LINE_NUMBERED_def seqs_def by (simp only: foldr.simps comp_def id_apply ms_seq_bol)
  have 2: "\<dots> = ms (Seq (Grp 1 (Plus (Cls is_digit))) (Seq (Lit 41) ?T)) ?u"
    by (subst seq_star_cls [OF rej_space_digits]) (simp_all add: at_pos_def)
  have 3: "\<dots> = (if takeWhile is_digit (ahead ?u) = [] then [] else ms (Seq (Lit 41) ?T) ?v)"
    by (rule seq_grp_plus_cls [OF rej_digit_paren])
  have u: "?u = at_pos [] ?line" unfolding sp by simp
  have ahv: "ahead ?v = 41 # rest" unfolding u by (simp add: at_pos_def dg)
  have 4: "ms (Seq (Lit 41) ?T) ?v = ms ?T ?t"
    unfolding ms_seq_lit_Cons [OF ahv] unfolding u by (simp add: at_pos_def dg advance_def)
  have "ms NEW_LINE_NUMBERED (at_pos [] ?line) = ms ?T ?t"
    unfolding 1 2 3 4 unfolding u using assms(1) by (simp add: at_pos_def dg)
  with ms_spaces_text [of ?t 2] assms(3,4) show ?thesis
    by (simp add: re_match_Some match_group_def)
qed

section \<open>Properties of the scans\<close>

subsection \<open>The heading of the answers matches no pattern of the tasks\<close>

lemma heading_no_digit: "takeWhile is_digit answers_heading = []"
  by (simp add: answers_heading_def)

lemma heading_not_main:
  "re_match rx_main answers_heading = None" "re_match rx_three_level answers_heading = None"
  using main_match_iff [of answers_heading] three_level_iff [of answers_heading]
  by (simp_all add: heading_no_digit)

lemma heading_not_new_line:
  "re_match NEW_LINE_LETTER answers_heading = None"
  "re_match NEW_LINE_NUMBERED answers_heading = None"
  by (simp_all add: rx_defs cls_defs re_defs answers_heading_def)

subsection \<open>One iteration of the loop\<close>

lemma loop_body_heading:
  "normalize_line raw = answers_heading \<Longrightarrow> loop_body lines i raw st = st\<lparr>answers_section := True\<rparr>"
  by (simp add: loop_body_def)

lemma loop_body_answers:
  "answers_section st \<Longrightarrow>
   tasks (loop_body lines i raw st) = tasks st \<and> answers_section (loop_body lines i raw st) \<and>
   current_main_id (loop_body lines i raw st) = current_main_id st"
  by (simp add: loop_body_def Let_def)

lemma new_line_variant_None:
  "current_main_id st = None \<Longrightarrow> new_line_variant ps line st = st"
  by (induction ps line st rule: new_line_variant.induct) (simp_all split: option.splits)

lemma new_line_variant_cases:
  "new_line_variant ps line st = st \<or>
   (\<exists>m v text. current_main_id st = Some m \<and> m \<noteq> [] \<and>
      new_line_variant ps line st = st\<lparr>tasks := tasks st @ [create_task m (Some v) text True]\<rparr>)"
  by (induction ps line st rule: new_line_variant.induct) (auto split: option.splits)

lemma inline_variant_cases:
  "inline_variant ps line m = None \<or>
   (\<exists>v text. inline_variant ps line m = Some (create_task m (Some v) text True))"
  by (induction ps line m rule: inline_variant.induct) (auto split: option.splits)

text \<open>What an iteration can do to the state, outside and inside the answers.\<close>

lemma loop_body_cases:
  "(normalize_line raw = answers_heading \<and>
      loop_body lines i raw st = st\<lparr>answers_section := True\<rparr>) \<or>
   loop_body lines i raw st = st \<or>
   (\<exists>mm. re_match rx_main (normalize_line raw) = Some mm \<and> \<not> answers_section st \<and>
      (loop_body lines i raw st = st\<lparr>current_main_id := Some (match_group mm 1)\<rparr> \<or>
       (\<exists>v text sub. loop_body lines i raw st =
           st\<lparr>current_main_id := Some (match_group mm 1),
              tasks := tasks st @ [create_task (match_group mm 1) v text sub]\<rparr>))) \<or>
   (\<exists>m v text. re_match rx_main (normalize_line raw) = None \<and> \<not> answers_section st \<and>
      current_main_id st = Some m \<and> m \<noteq> [] \<and>
      loop_body lines i raw st = st\<lparr>tasks := tasks st @ [create_task m (Some v) text True]\<rparr>) \<or>
   (\<exists>a. answers_section st \<and> loop_body lines i raw st = st\<lparr>all_answers := a\<rparr>)"
proof (cases "normalize_line raw = answers_heading")
  case True
  then show ?thesis by (simp add: loop_body_def)
next
  case nh: False
  show ?thesis
  proof (cases "answers_section st")
    case True
    with nh have "loop_body lines i raw st =
        st\<lparr>all_answers := all_answers st ++ extract_answers_from_line (normalize_line raw)\<rparr>"
      by (simp add: loop_body_def Let_def)
    with True show ?thesis by blast
  next
    case na: False
    show ?thesis
    proof (cases "re_match rx_three_level (normalize_line raw) \<noteq> None")
      case True
      with nh na have "loop_body lines i raw st = st" by (simp add: loop_body_def Let_def)
      then show ?thesis by simp
    next
      case n3: False
      show ?thesis
      proof (cases "re_match rx_main (normalize_line raw)")
        case None
        with nh na n3 have lb: "loop_body lines i raw st =
            new_line_variant [(NEW_LINE_LETTER, 1), (NEW_LINE_NUMBERED, 1)] (normalize_line raw) st"
          by (simp add: loop_body_def Let_def)
        from new_line_variant_cases [of "[(NEW_LINE_LETTER, 1), (NEW_LINE_NUMBERED, 1)]" "normalize_line raw" st]
        show ?thesis unfolding lb [symmetric] using None na by blast
      next
        case (Some mm)
        let ?st1 = "st\<lparr>current_main_id := Some (match_group mm 1)\<rparr>"
        let ?hdr = "i + 1 < length lines \<and>
            re_match (rx_header (match_group mm 1)) (strip (lines ! (i + 1))) \<noteq> None"
        let ?inl = "inline_variant [(INLINE_LETTER, 2), (INLINE_NUMBERED, 2)] (normalize_line raw)
            (match_group mm 1)"
        have lb: "loop_body lines i raw st =
           (if ?hdr then ?st1
            else case ?inl of
                Some t \<Rightarrow> ?st1\<lparr>tasks := tasks ?st1 @ [t]\<rparr>
              | None \<Rightarrow>
                  if strip (match_group mm 2) \<noteq> [] then
                    ?st1\<lparr>tasks := tasks ?st1 @
                      [create_task (match_group mm 1) None (strip (match_group mm 2)) False]\<rparr>
                  else ?st1)"
          unfolding loop_body_def Let_def
          by (simp only: nh na n3 Some if_True if_False not_False_eq_True option.case simp_thms)
        have "loop_body lines i raw st = ?st1 \<or>
          (\<exists>v text sub. loop_body lines i raw st =
             st\<lparr>current_main_id := Some (match_group mm 1),
                tasks := tasks st @ [create_task (match_group mm 1) v text sub]\<rparr>)"
        proof (cases ?hdr)
          case True
          then show ?thesis unfolding lb by simp
        next
          case nohdr: False
          show ?thesis
          proof (cases ?inl)
            case (Some t)
            with inline_variant_cases [of "[(INLINE_LETTER, 2), (INLINE_NUMBERED, 2)]"
                "normalize_line raw" "match_group mm 1"]
            obtain v body where "t = create_task (match_group mm 1) (Some v) body True" by auto
            with Some nohdr have "loop_body lines i raw st =
               st\<lparr>current_main_id := Some (match_group mm 1),
                  tasks := tasks st @ [create_task (match_group mm 1) (Some v) body True]\<rparr>"
              unfolding lb by simp
            then show ?thesis by blast
          next
            case None
            show ?thesis
            proof (cases "strip (match_group mm 2) \<noteq> []")
              case True
              with None nohdr have "loop_body lines i raw st =
                 st\<lparr>current_main_id := Some (match_group mm 1),
                    tasks := tasks st @
                      [create_task (match_group mm 1) None (strip (match_group mm 2)) False]\<rparr>"
                unfolding lb by simp
              then show ?thesis by blast
            next
              case False
              with None nohdr show ?thesis unfolding lb by simp
            qed
          qed
        qed
        with Some na show ?thesis by blast
      qed
    qed
  qed
qed

subsection \<open>The loop\<close>

lemma scan_prefix_0: "scan_prefix lines 0 = initial_state"
  by (simp add: scan_prefix_def)

lemma scan_prefix_Suc:
  "i < length lines \<Longrightarrow>
   scan_prefix lines (Suc i) = loop_body lines i (lines ! i) (scan_prefix lines i)"
  by (simp add: scan_prefix_def take_Suc_conv_app_nth nth_enumerate_eq)

lemma loop_body_answers_section:
  "answers_section st \<Longrightarrow> answers_section (loop_body lines i raw st)"
  using loop_body_cases [of raw lines i st] by auto

lemma loop_body_tasks_append:
  "\<exists>new. tasks (loop_body lines i raw st) = tasks st @ new \<and>
     (\<forall>t\<in>set new. answer t = no_answer)"
  using loop_body_cases [of raw lines i st] by (auto simp: create_task_def)

lemma scan_prefix_after_heading:
  assumes "answers_section (scan_prefix lines k)" and "k \<le> n" and "n \<le> length lines"
  shows "answers_section (scan_prefix lines n) \<and>
         tasks (scan_prefix lines n) = tasks (scan_prefix lines k)"
  using assms(2,3)
proof (induction n)
  case 0
  with assms(1) show ?case by simp
next
  case (Suc n)
  show ?case
  proof (cases "k = Suc n")
    case True
    with assms(1) show ?thesis by simp
  next
    case False
    with Suc.prems have "k \<le> n" "n < length lines" by simp_all
    with Suc.IH have "answers_section (scan_prefix lines n)"
      "tasks (scan_prefix lines n) = tasks (scan_prefix lines k)" by simp_all
    with loop_body_answers [of "scan_prefix lines n" lines n "lines ! n"] \<open>n < length lines\<close>
    show ?thesis by (simp add: scan_prefix_Suc)
  qed
qed

lemma merge_answers_fields:
  "map id_tasks_book (merge_answers m ts) = map id_tasks_book ts"
  "map task (merge_answers m ts) = map task ts"
  by (induction ts) (auto simp: merge_answers_def split: option.splits)

lemma merge_answers_empty: "merge_answers Map.empty ts = ts"
  by (induction ts) (auto simp: merge_answers_def)

lemma loop_body_register:
  assumes "current_main_id (loop_body lines i raw st) = Some m"
  shows "current_main_id st = Some m \<or>
         (\<exists>mm. re_match rx_main (normalize_line raw) = Some mm \<and> match_group mm 1 = m)"
  using loop_body_cases [of raw lines i st] assms by auto

lemma register_origin:
  "n \<le> length lines \<Longrightarrow> current_main_id (scan_prefix lines n) = Some m \<Longrightarrow>
   \<exists>j<n. \<exists>mm. re_match rx_main (normalize_line (lines ! j)) = Some mm \<and> match_group mm 1 = m"
proof (induction n)
  case 0
  then show ?case by (simp add: scan_prefix_0 initial_state_def)
next
  case (Suc n)
  then have n: "n < length lines" by simp
  from Suc.prems(2) have "current_main_id (loop_body lines n (lines ! n) (scan_prefix lines n)) = Some m"
    using n by (simp add: scan_prefix_Suc)
  from loop_body_register [OF this] show ?case
  proof
    assume "current_main_id (scan_prefix lines n) = Some m"
    with Suc.IH n obtain j mm where "j < n"
      "re_match rx_main (normalize_line (lines ! j)) = Some mm \<and> match_group mm 1 = m" by auto
    then show ?thesis using less_Suc_eq by blast
  next
    assume "\<exists>mm. re_match rx_main (normalize_line (lines ! n)) = Some mm \<and> match_group mm 1 = m"
    then show ?thesis by blast
  qed
qed

lemma create_task_prefix: "prefix m (id_tasks_book (create_task m v body sub))"
  by (simp add: create_task_def split: option.splits)

lemma loop_body_new_line_emit:
  assumes "re_match rx_main (normalize_line raw) = None"
    and "tasks (loop_body lines i raw st) \<noteq> tasks st"
  shows "\<exists>m t. current_main_id st = Some m \<and> tasks (loop_body lines i raw st) = tasks st @ [t] \<and>
           prefix m (id_tasks_book t)"
  using loop_body_cases [of raw lines i st] assms by (auto simp: create_task_prefix)

subsection \<open>The table of contents\<close>

lemma toc_inv_append:
  assumes "toc_inv items" and "item_id it = length items + 1"
    and "parent it = find_parent (temp it) items"
  shows "toc_inv (items @ [it])"
  unfolding toc_inv_def
proof (intro allI impI)
  fix j assume j: "j < length (items @ [it])"
  show "item_id ((items @ [it]) ! j) = j + 1 \<and>
        parent ((items @ [it]) ! j) = find_parent (temp ((items @ [it]) ! j)) (take j (items @ [it]))"
  proof (cases "j < length items")
    case True
    with assms(1) show ?thesis by (simp add: toc_inv_def nth_append)
  next
    case False
    with j have "j = length items" by simp
    with assms(2,3) show ?thesis by simp
  qed
qed

lemma toc_loop_inv:
  "toc_inv (toc st) \<Longrightarrow> current_id st = length (toc st) + 1 \<Longrightarrow> toc_inv (toc (toc_loop ps st))"
proof (induction ps st rule: toc_loop.induct)
  case (1 st)
  then show ?case by simp
next
  case (2 p ps st)
  show ?case
  proof (cases "contains toc_heading (strip p)")
    case True
    with 2 show ?thesis by simp
  next
    case nohead: False
    show ?thesis
    proof (cases "inside_toc st \<and> re_match rx_toc_prefix (strip p) \<noteq> None")
      case pre: True
      show ?thesis
      proof (cases "re_match rx_section (strip p)")
        case None
        with 2 nohead pre show ?thesis by simp
      next
        case (Some sm)
        let ?it = "\<lparr>item_id = current_id st, name = strip (match_group sm 2),
                    parent = find_parent (match_group sm 1) (toc st), temp = match_group sm 1\<rparr>"
        have "toc_inv (toc st @ [?it])"
          using "2.prems" by (intro toc_inv_append) simp_all
        with 2 nohead pre Some show ?thesis by (simp add: Let_def)
      qed
    next
      case False
      with 2 nohead show ?thesis by (auto simp: Let_def)
    qed
  qed
qed

lemma toc_items_inv: "toc_inv (toc_items ps)"
  unfolding toc_items_def by (rule toc_loop_inv) (simp_all add: toc_inv_def)

lemma rsplit_dot_head_append: "46 \<notin> set b \<Longrightarrow> rsplit_dot_head (a @ 46 # b) = a"
proof -
  assume b: "46 \<notin> set b"
  then have "dropWhile (\<lambda>c. c \<noteq> 46) (rev b @ 46 # rev a) = 46 # rev a"
    by (subst dropWhile_append2) auto
  then show ?thesis by (simp add: rsplit_dot_head_def)
qed

lemma first_id_with_cases:
  "(\<exists>k<length items. temp (items ! k) = key \<and> (\<forall>i<k. temp (items ! i) \<noteq> key) \<and>
       first_id_with key items = item_id (items ! k)) \<or>
   ((\<forall>k<length items. temp (items ! k) \<noteq> key) \<and> first_id_with key items = 0)"
proof (cases "find (\<lambda>item. temp item = key) items")
  case None
  then have "\<forall>k<length items. temp (items ! k) \<noteq> key"
    by (auto simp: find_None_iff)
  with None show ?thesis by (simp add: first_id_with_def)
next
  case (Some x)
  then obtain k where "k < length items" "temp (items ! k) = key" "x = items ! k"
    "\<forall>i<k. temp (items ! i) \<noteq> key"
    unfolding find_Some_iff by blast
  with Some have "k < length items \<and> temp (items ! k) = key \<and>
      (\<forall>i<k. temp (items ! i) \<noteq> key) \<and> first_id_with key items = item_id (items ! k)"
    by (simp add: first_id_with_def)
  then show ?thesis by blast
qed

lemma toc_example: "extract_toc [toc_heading, U ''1. Intro'', U ''1.1. Basics'', U ''1.2. Advanced'', U ''2. Next'']
      = [(1, U ''Intro'', 0), (2, U ''Basics'', 1), (3, U ''Advanced'', 1), (4, U ''Next'', 0)]"
  by (simp add: toc_defs rx_defs cls_defs re_defs)

subsection \<open>A line with a main number\<close>

lemma loop_body_main_line:
  assumes "\<not> answers_section st" and "normalize_line raw = N @ 46 # rest" and "N \<noteq> []"
    and "\<forall>c\<in>set N. is_digit c" and "re_match rx_three_level (normalize_line raw) = None"
  shows "loop_body lines i raw st =
     (if i + 1 < length lines \<and> re_match (rx_header N) (strip (lines ! (i + 1))) \<noteq> None
      then st\<lparr>current_main_id := Some N\<rparr>
      else case inline_variant [(INLINE_LETTER, 2), (INLINE_NUMBERED, 2)] (normalize_line raw) N of
             Some t \<Rightarrow> st\<lparr>current_main_id := Some N, tasks := tasks st @ [t]\<rparr>
           | None \<Rightarrow>
               if strip rest \<noteq> [] then
                 st\<lparr>current_main_id := Some N,
                    tasks := tasks st @ [create_task N None (strip rest) False]\<rparr>
               else st\<lparr>current_main_id := Some N\<rparr>)"
proof -
  let ?line = "normalize_line raw"
  have d: "takeWhile is_digit ?line = N" "dropWhile is_digit ?line = 46 # rest"
    unfolding assms(2) using assms(4) by (simp_all add: digits_prefix)
  from d(1) assms(3) heading_no_digit have nh: "?line \<noteq> answers_heading" by auto
  have "re_match rx_main ?line \<noteq> None"
    unfolding main_match_iff d using assms(3) by simp
  then obtain mm where mm: "re_match rx_main ?line = Some mm" by auto
  have "\<forall>c\<in>set (dropWhile is_space rest). is_dot c"
    using normalize_line_dot [of _ raw] unfolding assms(2) by (auto dest: set_dropWhileD)
  then have "takeWhile is_dot (dropWhile is_space rest) = dropWhile is_space rest"
    by (rule takeWhile_dot_id)
  with main_match_groups [OF mm] d
  have g: "match_group mm 1 = N" "strip (match_group mm 2) = strip rest"
    by (simp_all add: strip_dropWhile)
  have n3: "\<not> re_match rx_three_level ?line \<noteq> None" using assms(5) by simp
  show ?thesis
    unfolding loop_body_def Let_def
    apply (simp only: nh assms(1) n3 mm g if_True if_False not_False_eq_True option.case simp_thms)
    apply (simp del: inline_variant.simps cong: if_cong option.case_cong)
    done
qed

lemma loop_body_main_line_emits:
  assumes "\<not> answers_section st" and "normalize_line raw = N @ 46 # rest" and "N \<noteq> []"
    and "\<forall>c\<in>set N. is_digit c" and "re_match rx_three_level (normalize_line raw) = None"
    and "strip rest \<noteq> []"
    and "\<not> (i + 1 < length lines \<and> re_match (rx_header N) (strip (lines ! (i + 1))) \<noteq> None)"
  shows "length (tasks (loop_body lines i raw st)) = Suc (length (tasks st))"
  unfolding loop_body_main_line [OF assms(1-5)] using assms(6,7)
  by (simp split: option.splits)


lemma inline_variant_None:
  "re_match INLINE_LETTER line = None \<Longrightarrow> re_match INLINE_NUMBERED line = None \<Longrightarrow>
   inline_variant [(INLINE_LETTER, 2), (INLINE_NUMBERED, 2)] line m = None"
  by simp

lemma loop_body_new_line:
  assumes "\<not> answers_section st" and "normalize_line raw \<noteq> answers_heading"
    and "re_match rx_three_level (normalize_line raw) = None"
    and "re_match rx_main (normalize_line raw) = None"
  shows "loop_body lines i raw st =
     new_line_variant [(NEW_LINE_LETTER, 1), (NEW_LINE_NUMBERED, 1)] (normalize_line raw) st"
  using assms by (simp add: loop_body_def Let_def del: new_line_variant.simps)

subsection \<open>A document without the heading of the answers\<close>

lemma loop_body_no_heading:
  assumes "normalize_line raw \<noteq> answers_heading" and "\<not> answers_section st"
  shows "\<not> answers_section (loop_body lines i raw st) \<and>
         all_answers (loop_body lines i raw st) = all_answers st"
  using loop_body_cases [of raw lines i st] assms by auto

lemma scan_prefix_no_heading:
  assumes "\<forall>l\<in>set lines. normalize_line l \<noteq> answers_heading"
  shows "n \<le> length lines \<Longrightarrow>
     \<not> answers_section (scan_prefix lines n) \<and> all_answers (scan_prefix lines n) = Map.empty \<and>
     (\<forall>t\<in>set (tasks (scan_prefix lines n)). answer t = no_answer)"
proof (induction n)
  case 0
  then show ?case by (simp add: scan_prefix_0 initial_state_def)
next
  case (Suc n)
  then have n: "n < length lines" by simp
  with assms have nh: "normalize_line (lines ! n) \<noteq> answers_heading" by simp
  from Suc n have IH: "\<not> answers_section (scan_prefix lines n)"
    "all_answers (scan_prefix lines n) = Map.empty"
    "\<forall>t\<in>set (tasks (scan_prefix lines n)). answer t = no_answer" by simp_all
  from loop_body_tasks_append [of lines n "lines ! n" "scan_prefix lines n"] IH(3)
  have "\<forall>t\<in>set (tasks (loop_body lines n (lines ! n) (scan_prefix lines n))). answer t = no_answer"
    by auto
  with loop_body_no_heading [OF nh IH(1), of lines n] IH(2) n show ?case
    by (simp add: scan_prefix_Suc)
qed

lemma tasks_length_mono:
  "n \<le> m \<Longrightarrow> m \<le> length lines \<Longrightarrow>
   length (tasks (scan_prefix lines n)) \<le> length (tasks (scan_prefix lines m))"
proof (induction m)
  case 0
  then show ?case by simp
next
  case (Suc m)
  show ?case
  proof (cases "n = Suc m")
    case True
    then show ?thesis by simp
  next
    case False
    with Suc.prems have nm: "n \<le> m" "m < length lines" by simp_all
    from loop_body_tasks_append [of lines m "lines ! m" "scan_prefix lines m"]
    have "length (tasks (scan_prefix lines m)) \<le> length (tasks (scan_prefix lines (Suc m)))"
      using nm(2) by (auto simp: scan_prefix_Suc)
    with Suc.IH nm show ?thesis by simp
  qed
qed

subsection \<open>Which lines emit a record\<close>

lemma loop_body_three_level:
  assumes "\<not> answers_section st" and "re_match rx_three_level (normalize_line raw) \<noteq> None"
  shows "loop_body lines i raw st = st"
proof -
  from assms(2) heading_not_main(2) have "normalize_line raw \<noteq> answers_heading" by auto
  with assms show ?thesis by (simp add: loop_body_def Let_def)
qed

lemma main_shape:
  assumes "re_match rx_main line = Some mm"
  shows "\<exists>rest. line = match_group mm 1 @ 46 # rest" and "match_group mm 1 \<noteq> []"
    and "\<forall>c\<in>set (match_group mm 1). is_digit c"
proof -
  from assms have "re_match rx_main line \<noteq> None" by simp
  then obtain r where r: "takeWhile is_digit line \<noteq> []" "dropWhile is_digit line = 46 # r"
    unfolding main_match_iff by blast
  from main_match_groups [OF assms] have g: "match_group mm 1 = takeWhile is_digit line" by simp
  have "line = takeWhile is_digit line @ dropWhile is_digit line" by simp
  then have "line = match_group mm 1 @ 46 # r" unfolding g r(2) .
  then show "\<exists>rest. line = match_group mm 1 @ 46 # rest" by blast
  from r(1) g show "match_group mm 1 \<noteq> []" by simp
  show "\<forall>c\<in>set (match_group mm 1). is_digit c"
    unfolding g by (auto dest: set_takeWhileD)
qed

lemma loop_body_register_shape:
  assumes "current_main_id (loop_body lines i raw st) = Some m"
  shows "current_main_id st = Some m \<or>
         (re_match rx_three_level (normalize_line raw) = None \<and>
          (\<exists>rest. normalize_line raw = m @ 46 # rest) \<and> m \<noteq> [] \<and> (\<forall>c\<in>set m. is_digit c))"
proof (cases "answers_section st")
  case True
  with loop_body_answers [OF True, of lines i raw] assms show ?thesis by simp
next
  case na: False
  show ?thesis
  proof (cases "re_match rx_three_level (normalize_line raw) \<noteq> None")
    case True
    from loop_body_three_level [OF na True, of lines i] assms show ?thesis by simp
  next
    case False
    then have n3: "re_match rx_three_level (normalize_line raw) = None" by simp
    from loop_body_register [OF assms] show ?thesis
    proof
      assume "current_main_id st = Some m"
      then show ?thesis by simp
    next
      assume "\<exists>mm. re_match rx_main (normalize_line raw) = Some mm \<and> match_group mm 1 = m"
      then obtain mm where mm: "re_match rx_main (normalize_line raw) = Some mm"
        "match_group mm 1 = m" by blast
      from main_shape [OF mm(1)] mm(2) n3 show ?thesis by simp
    qed
  qed
qed

lemma register_origin_shape:
  "n \<le> length lines \<Longrightarrow> current_main_id (scan_prefix lines n) = Some m \<Longrightarrow>
   \<exists>j<n. re_match rx_three_level (normalize_line (lines ! j)) = None \<and>
     (\<exists>rest. normalize_line (lines ! j) = m @ 46 # rest) \<and> m \<noteq> [] \<and> (\<forall>c\<in>set m. is_digit c)"
proof (induction n)
  case 0
  then show ?case by (simp add: scan_prefix_0 initial_state_def)
next
  case (Suc n)
  then have n: "n < length lines" by simp
  from Suc.prems(2) have "current_main_id (loop_body lines n (lines ! n) (scan_prefix lines n)) = Some m"
    using n by (simp add: scan_prefix_Suc)
  from loop_body_register_shape [OF this] show ?case
  proof
    assume "current_main_id (scan_prefix lines n) = Some m"
    with Suc.IH n obtain j where "j < n"
      "re_match rx_three_level (normalize_line (lines ! j)) = None \<and>
       (\<exists>rest. normalize_line (lines ! j) = m @ 46 # rest) \<and> m \<noteq> [] \<and> (\<forall>c\<in>set m. is_digit c)"
      by auto
    then show ?thesis using less_Suc_eq by blast
  next
    assume "re_match rx_three_level (normalize_line (lines ! n)) = None \<and>
       (\<exists>rest. normalize_line (lines ! n) = m @ 46 # rest) \<and> m \<noteq> [] \<and> (\<forall>c\<in>set m. is_digit c)"
    then show ?thesis by blast
  qed
qed

lemma new_line_variant_emits:
  assumes "tasks (new_line_variant [(NEW_LINE_LETTER, 1), (NEW_LINE_NUMBERED, 1)] line st) \<noteq> tasks st"
  shows "(re_match NEW_LINE_LETTER line \<noteq> None \<or> re_match NEW_LINE_NUMBERED line \<noteq> None) \<and>
         (\<exists>m. current_main_id st = Some m \<and> m \<noteq> [])"
  using assms by (auto split: option.splits if_splits)

lemma new_line_variant_match:
  assumes "current_main_id st = Some m" and "m \<noteq> []"
    and "re_match NEW_LINE_LETTER line \<noteq> None \<or> re_match NEW_LINE_NUMBERED line \<noteq> None"
  shows "length (tasks (new_line_variant [(NEW_LINE_LETTER, 1), (NEW_LINE_NUMBERED, 1)] line st))
           = Suc (length (tasks st))"
  using assms by (auto split: option.splits)

lemma loop_body_register_kept:
  assumes "\<exists>m. current_main_id st = Some m \<and> m \<noteq> []"
  shows "\<exists>m. current_main_id (loop_body lines i raw st) = Some m \<and> m \<noteq> []"
proof -
  from loop_body_cases [of raw lines i st]
  consider "current_main_id (loop_body lines i raw st) = current_main_id st"
    | mm where "re_match rx_main (normalize_line raw) = Some mm"
        "current_main_id (loop_body lines i raw st) = Some (match_group mm 1)"
    by auto
  then show ?thesis
  proof cases
    case 1
    with assms show ?thesis by simp
  next
    case 2
    with main_shape(2) [OF 2(1)] show ?thesis by simp
  qed
qed

lemma loop_body_main_line_register:
  assumes "\<not> answers_section st" and "normalize_line raw = N @ 46 # rest" and "N \<noteq> []"
    and "\<forall>c\<in>set N. is_digit c" and "re_match rx_three_level (normalize_line raw) = None"
  shows "current_main_id (loop_body lines i raw st) = Some N"
  unfolding loop_body_main_line [OF assms]
  by (simp split: option.splits del: inline_variant.simps)

lemma register_after_main_line:
  assumes "\<forall>l\<in>set lines. normalize_line l \<noteq> answers_heading"
    and "normalize_line (lines ! j) = N @ 46 # rest" and "N \<noteq> []" and "\<forall>c\<in>set N. is_digit c"
    and "re_match rx_three_level (normalize_line (lines ! j)) = None"
  shows "j < n \<Longrightarrow> n \<le> length lines \<Longrightarrow>
         \<exists>m. current_main_id (scan_prefix lines n) = Some m \<and> m \<noteq> []"
proof (induction n)
  case 0
  then show ?case by simp
next
  case (Suc n)
  then have n: "n < length lines" by simp
  show ?case
  proof (cases "j = n")
    case True
    from scan_prefix_no_heading [OF assms(1), of n] n
    have na: "\<not> answers_section (scan_prefix lines n)" by simp
    from loop_body_main_line_register [OF na assms(2-5) [unfolded True], of lines n] assms(3) n
    show ?thesis by (simp add: scan_prefix_Suc)
  next
    case False
    with Suc.prems have "j < n" by simp
    with Suc.IH n have "\<exists>m. current_main_id (scan_prefix lines n) = Some m \<and> m \<noteq> []" by simp
    from loop_body_register_kept [OF this, of lines n "lines ! n"] n
    show ?thesis by (simp add: scan_prefix_Suc)
  qed
qed

lemma tasks_first_change:
  "n \<le> length lines \<Longrightarrow> tasks (scan_prefix lines n) \<noteq> [] \<Longrightarrow>
   \<exists>i<n. tasks (scan_prefix lines (Suc i)) \<noteq> tasks (scan_prefix lines i)"
proof (induction n)
  case 0
  then show ?case by (simp add: scan_prefix_0 initial_state_def)
next
  case (Suc n)
  show ?case
  proof (cases "tasks (scan_prefix lines (Suc n)) = tasks (scan_prefix lines n)")
    case True
    with Suc obtain i where "i < n"
      "tasks (scan_prefix lines (Suc i)) \<noteq> tasks (scan_prefix lines i)" by auto
    then show ?thesis using less_Suc_eq by blast
  next
    case False
    then show ?thesis by blast
  qed
qed

lemma loop_body_emits_shape:
  assumes "\<not> answers_section st" and "normalize_line raw \<noteq> answers_heading"
    and "tasks (loop_body lines i raw st) \<noteq> tasks st"
  shows "(\<exists>N rest. normalize_line raw = N @ 46 # rest \<and> N \<noteq> [] \<and> (\<forall>c\<in>set N. is_digit c) \<and>
            strip rest \<noteq> [] \<and> re_match rx_three_level (normalize_line raw) = None \<and>
            \<not> (i + 1 < length lines \<and>
               re_match (rx_header N) (strip (lines ! (i + 1))) \<noteq> None)) \<or>
         ((re_match NEW_LINE_LETTER (normalize_line raw) \<noteq> None \<or>
           re_match NEW_LINE_NUMBERED (normalize_line raw) \<noteq> None) \<and>
          (\<exists>m. current_main_id st = Some m \<and> m \<noteq> []))"
proof -
  let ?line = "normalize_line raw"
  have n3: "re_match rx_three_level ?line = None"
  proof (rule ccontr)
    assume "re_match rx_three_level ?line \<noteq> None"
    from loop_body_three_level [OF assms(1) this, of lines i] assms(3) show False by simp
  qed
  show ?thesis
  proof (cases "re_match rx_main ?line")
    case None
    from loop_body_new_line [OF assms(1,2) n3 None, of lines i] assms(3)
    have "tasks (new_line_variant [(NEW_LINE_LETTER, 1), (NEW_LINE_NUMBERED, 1)] ?line st) \<noteq> tasks st"
      by simp
    from new_line_variant_emits [OF this] show ?thesis by blast
  next
    case (Some mm)
    let ?N = "match_group mm 1"
    from main_shape [OF Some] obtain rest where
      sh: "?line = ?N @ 46 # rest" "?N \<noteq> []" "\<forall>c\<in>set ?N. is_digit c" by blast
    note lb = loop_body_main_line [OF assms(1) sh n3, of lines i]
    have nohdr: "\<not> (i + 1 < length lines \<and>
        re_match (rx_header ?N) (strip (lines ! (i + 1))) \<noteq> None)"
    proof
      assume "i + 1 < length lines \<and> re_match (rx_header ?N) (strip (lines ! (i + 1))) \<noteq> None"
      then have "loop_body lines i raw st = st\<lparr>current_main_id := Some ?N\<rparr>"
        unfolding lb by (simp del: inline_variant.simps)
      with assms(3) show False by simp
    qed
    have body: "strip rest \<noteq> []"
    proof
      assume e: "strip rest = []"
      have d: "takeWhile is_digit ?line \<noteq> []" "dropWhile is_digit ?line = 46 # rest"
        using sh(2,3) by (subst sh(1), simp add: digits_prefix)+
      from inline_none_without_text [OF d strip_empty [OF e]]
      have "inline_variant [(INLINE_LETTER, 2), (INLINE_NUMBERED, 2)] ?line ?N = None" by simp
      with e nohdr have "loop_body lines i raw st = st\<lparr>current_main_id := Some ?N\<rparr>"
        unfolding lb by (simp del: inline_variant.simps)
      with assms(3) show False by simp
    qed
    from sh n3 nohdr body show ?thesis by blast
  qed
qed

section \<open>The claims\<close>

text \<open>
  Claim C6. Every entry of the table of contents has the next identifier (counted from 1)
  and, as its parent, the identifier of the first earlier entry whose section number is
  this entry's section number without its last dot segment; the parent is 0 when the
  section number has no dot or no earlier entry has that number. The four lines
  "1. Intro", "1.1. Basics", "1.2. Advanced", "2. Next" after the heading give the entries
  (1, Intro, 0), (2, Basics, 1), (3, Advanced, 1), (4, Next, 0).
\<close>

theorem toc_parent_resolution:
  "(j < length (toc_items ps) \<longrightarrow>
      extract_toc ps ! j = (j + 1, name (toc_items ps ! j), parent (toc_items ps ! j)) \<and>
      (46 \<notin> set (temp (toc_items ps ! j)) \<longrightarrow> parent (toc_items ps ! j) = 0) \<and>
      (temp (toc_items ps ! j) = a @ 46 # b \<and> 46 \<notin> set b \<longrightarrow>
         (\<exists>k<j. temp (toc_items ps ! k) = a \<and> (\<forall>i<k. temp (toc_items ps ! i) \<noteq> a) \<and>
                parent (toc_items ps ! j) = k + 1) \<or>
         ((\<forall>k<j. temp (toc_items ps ! k) \<noteq> a) \<and> parent (toc_items ps ! j) = 0))) \<and>
   extract_toc [toc_heading, U ''1. Intro'', U ''1.1. Basics'', U ''1.2. Advanced'', U ''2. Next'']
      = [(1, U ''Intro'', 0), (2, U ''Basics'', 1), (3, U ''Advanced'', 1), (4, U ''Next'', 0)]"
proof (intro conjI impI)
  assume j: "j < length (toc_items ps)"
  let ?items = "toc_items ps"
  have inv: "toc_inv ?items" by (rule toc_items_inv)
  from inv j have idj: "item_id (?items ! j) = j + 1"
    and par: "parent (?items ! j) = find_parent (temp (?items ! j)) (take j ?items)"
    by (simp_all add: toc_inv_def)
  from j idj show "extract_toc ps ! j = (j + 1, name (?items ! j), parent (?items ! j))"
    by (simp add: extract_toc_def)
  {
    assume "46 \<notin> set (temp (?items ! j))"
    with par show "parent (?items ! j) = 0" by (simp add: find_parent_def)
  }
  {
    assume t: "temp (?items ! j) = a @ 46 # b \<and> 46 \<notin> set b"
    then have key: "rsplit_dot_head (temp (?items ! j)) = a"
      by (simp add: rsplit_dot_head_append)
    from t have "46 \<in> set (temp (?items ! j))" by simp
    with par key have par': "parent (?items ! j) = first_id_with a (take j ?items)"
      by (simp add: find_parent_def)
    have len: "length (take j ?items) = j" using j by simp
    from first_id_with_cases [of "take j ?items" a]
    show "(\<exists>k<j. temp (?items ! k) = a \<and> (\<forall>i<k. temp (?items ! i) \<noteq> a) \<and>
                parent (?items ! j) = k + 1) \<or>
         ((\<forall>k<j. temp (?items ! k) \<noteq> a) \<and> parent (?items ! j) = 0)"
    proof
      assume "\<exists>k<length (take j ?items). temp (take j ?items ! k) = a \<and>
          (\<forall>i<k. temp (take j ?items ! i) \<noteq> a) \<and>
          first_id_with a (take j ?items) = item_id (take j ?items ! k)"
      then obtain k where k: "k < j" "temp (?items ! k) = a"
        "\<forall>i<k. temp (?items ! i) \<noteq> a" "first_id_with a (take j ?items) = item_id (?items ! k)"
        using len by auto
      from inv k(1) j have "item_id (?items ! k) = k + 1" by (simp add: toc_inv_def)
      with k par' show ?thesis by auto
    next
      assume "(\<forall>k<length (take j ?items). temp (take j ?items ! k) \<noteq> a) \<and>
          first_id_with a (take j ?items) = 0"
      with len par' show ?thesis by auto
    qed
  }
next
  show "extract_toc [toc_heading, U ''1. Intro'', U ''1.1. Basics'', U ''1.2. Advanced'', U ''2. Next'']
      = [(1, U ''Intro'', 0), (2, U ''Basics'', 1), (3, U ''Advanced'', 1), (4, U ''Next'', 0)]"
    by (rule toc_example)
qed

theorem toc_parent_resolution_witness:
  "1 < length (toc_items [toc_heading, U ''1. Intro'', U ''1.1. Basics'']) \<and>
   temp (toc_items [toc_heading, U ''1. Intro'', U ''1.1. Basics''] ! 1) = U ''1'' @ 46 # U ''1'' \<and>
   46 \<notin> set (U ''1'') \<and>
   extract_toc [toc_heading, U ''1. Intro'', U ''1.1. Basics''] ! 1 = (2, U ''Basics'', 1) \<and>
   temp (toc_items [toc_heading, U ''1. Intro'', U ''1.1. Basics''] ! 0) = U ''1'' \<and>
   parent (toc_items [toc_heading, U ''1. Intro'', U ''1.1. Basics''] ! 1) = 1"
  using toc_parent_resolution [of 1 "[toc_heading, U ''1. Intro'', U ''1.1. Basics'']" "U ''1''" "U ''1''"]
  by (simp add: toc_defs rx_defs cls_defs re_defs)

subsection \<open>The end-to-end scenario\<close>

text \<open>
  Claim C1, as stated, with the Latin letters a and b of the example: the lines "a) ..."
  and "b) ..." are no sub-variants for the Cyrillic letter class, so the only record is
  the main task, and the whole answer line becomes its answer.
\<close>

theorem end_to_end_latin_letters:
  "extract_tasks_from_docx
     [U ''1. Solve the equation'', U ''a) x+1=0'', U ''b) x-1=0'', answers_heading,
      U ''1. a) -1 b) 1'']
   = [\<lparr>id_tasks_book = U ''1'', task = U ''Solve the equation'', answer = U ''a) -1 b) 1'',
       classes = U ''5;6'', topic_id = 1, level = 1\<rparr>] \<and>
   map id_tasks_book (extract_tasks_from_docx
     [U ''1. Solve the equation'', U ''a) x+1=0'', U ''b) x-1=0'', answers_heading,
      U ''1. a) -1 b) 1''])
   \<noteq> [U ''1'', U ''1.a'', U ''1.b'']"
  by (simp add: rx_defs cls_defs re_defs task_defs)

text \<open>
  Claim C1, amended: with the Cyrillic letters U+0430 and U+0431 in place of the Latin a
  and b, the records are the main task 1 with the text "Solve the equation" and the
  default answer, and the sub-variants 1.(U+0430) and 1.(U+0431) with the texts
  "x+1=0" and "x-1=0" behind a tab and the answers "-1" and "1".
\<close>

theorem end_to_end_cyrillic_letters:
  "extract_tasks_from_docx
     [U ''1. Solve the equation'', 1072 # U '') x+1=0'', 1073 # U '') x-1=0'', answers_heading,
      U ''1. '' @ 1072 # U '') -1 '' @ 1073 # U '') 1'']
   = [\<lparr>id_tasks_book = U ''1'', task = U ''Solve the equation'', answer = no_answer,
       classes = U ''5;6'', topic_id = 1, level = 1\<rparr>,
      \<lparr>id_tasks_book = U ''1.'' @ [1072], task = 9 # U ''x+1=0'', answer = U ''-1'',
       classes = U ''5;6'', topic_id = 1, level = 1\<rparr>,
      \<lparr>id_tasks_book = U ''1.'' @ [1073], task = 9 # U ''x-1=0'', answer = U ''1'',
       classes = U ''5;6'', topic_id = 1, level = 1\<rparr>]"
  by (simp add: rx_defs cls_defs re_defs task_defs)

subsection \<open>The merge of the answers\<close>

text \<open>
  Claim C8. Merging the same answers into a task list twice gives the same list as
  merging them once.
\<close>

theorem merge_answers_idempotent:
  "merge_answers m (merge_answers m ts) = merge_answers m ts"
  by (induction ts) (auto simp: merge_answers_def split: option.splits)

subsection \<open>The heading of the answers\<close>

text \<open>
  Claim C4. When the line at index \<open>k\<close> is, after normalization, the heading of the
  answers, every later state of the loop is in the answers section and has the task list
  that the loop had before that line: no later line emits a task. Once the loop is in the
  answers section it stays there. The records returned at the end have the ids and the
  texts of that list.
\<close>

theorem no_task_after_answers_heading:
  assumes "k < length lines" and "normalize_line (lines ! k) = answers_heading"
    and "k < n" and "n \<le> length lines"
  shows "tasks (scan_prefix lines n) = tasks (scan_prefix lines k) \<and>
         answers_section (scan_prefix lines n) \<and>
         (answers_section (scan_prefix lines m) \<and> m \<le> m' \<and> m' \<le> length lines \<longrightarrow>
            answers_section (scan_prefix lines m')) \<and>
         (lines = stripped_lines paragraphs \<longrightarrow>
            map id_tasks_book (extract_tasks_from_docx paragraphs)
              = map id_tasks_book (tasks (scan_prefix lines k)) \<and>
            map task (extract_tasks_from_docx paragraphs) = map task (tasks (scan_prefix lines k)))"
proof -
  have step: "scan_prefix lines (Suc k) = (scan_prefix lines k)\<lparr>answers_section := True\<rparr>"
    using assms(1,2) by (simp add: scan_prefix_Suc loop_body_heading)
  then have k1: "answers_section (scan_prefix lines (Suc k))"
    "tasks (scan_prefix lines (Suc k)) = tasks (scan_prefix lines k)" by simp_all
  have after: "answers_section (scan_prefix lines m) \<and>
      tasks (scan_prefix lines m) = tasks (scan_prefix lines k)"
    if "k < m" "m \<le> length lines" for m
    using scan_prefix_after_heading [OF k1(1), of m] k1(2) that by simp
  from assms(1) have "k < length lines" "length lines \<le> length lines" by simp_all
  from after [OF this] after [OF assms(3,4)] scan_prefix_after_heading [of lines m m']
  show ?thesis
    by (auto simp: extract_tasks_from_docx_def scan_document_def Let_def merge_answers_fields)
qed

theorem no_task_after_answers_heading_witness:
  "1 < length [U ''1. A'', answers_heading, U ''2. B''] \<and>
   normalize_line ([U ''1. A'', answers_heading, U ''2. B''] ! 1) = answers_heading \<and>
   (1::nat) < 3 \<and> 3 \<le> length [U ''1. A'', answers_heading, U ''2. B''] \<and>
   [U ''1. A'', answers_heading, U ''2. B'']
     = stripped_lines [U ''1. A'', answers_heading, U ''2. B''] \<and>
   tasks (scan_prefix [U ''1. A'', answers_heading, U ''2. B''] 3)
     = tasks (scan_prefix [U ''1. A'', answers_heading, U ''2. B''] 1) \<and>
   map id_tasks_book (extract_tasks_from_docx [U ''1. A'', answers_heading, U ''2. B''])
     = [U ''1'']"
  using no_task_after_answers_heading
    [where k = 1 and lines = "[U ''1. A'', answers_heading, U ''2. B'']" and n = 3 and m = 2
       and m' = 3 and paragraphs = "[U ''1. A'', answers_heading, U ''2. B'']"]
  by (simp add: rx_defs cls_defs re_defs task_defs)

subsection \<open>Lines of a deeper outline level\<close>

text \<open>
  Claim C5. Outside the answers section, a line whose start matches the three-level
  dotted shape (digits, dot, digits, dot) leaves the state of the loop as it is: no task
  is emitted for it, whatever follows the second dot.
\<close>

theorem three_level_line_skipped:
  assumes "\<not> answers_section st" and "re_match rx_three_level (normalize_line raw) \<noteq> None"
  shows "loop_body lines i raw st = st"
proof -
  from assms(2) heading_not_main(2) have "normalize_line raw \<noteq> answers_heading" by auto
  with assms show ?thesis by (simp add: loop_body_def Let_def)
qed

theorem three_level_line_skipped_witness:
  "\<not> answers_section initial_state \<and>
   re_match rx_three_level (normalize_line (U ''12.3. a) foo'')) \<noteq> None \<and>
   loop_body [U ''12.3. a) foo''] 0 (U ''12.3. a) foo'') initial_state = initial_state"
  using three_level_line_skipped [of initial_state "U ''12.3. a) foo''" "[U ''12.3. a) foo'']" 0]
  by (simp add: rx_defs cls_defs re_defs task_defs)

subsection \<open>Sub-variants and the current main number\<close>

text \<open>
  Claim C9. While no line has set the current main number, a line that matches a new-line
  sub-variant pattern (a letter or digits before a closing parenthesis) leaves the state
  as it is: no task is emitted. And when a line without a main number emits a task, the
  id of the task begins with the current main number, which is the main number of an
  earlier line.
\<close>

theorem sub_variant_needs_main_number:
  "(current_main_id st = None \<and> \<not> answers_section st \<and>
      (re_match NEW_LINE_LETTER (normalize_line raw) \<noteq> None \<or>
       re_match NEW_LINE_NUMBERED (normalize_line raw) \<noteq> None)
     \<longrightarrow> loop_body lines i raw st = st) \<and>
   (n < length lines \<and> re_match rx_main (normalize_line (lines ! n)) = None \<and>
      tasks (scan_prefix lines (Suc n)) \<noteq> tasks (scan_prefix lines n)
     \<longrightarrow> (\<exists>j<n. \<exists>mm t. re_match rx_main (normalize_line (lines ! j)) = Some mm \<and>
            current_main_id (scan_prefix lines n) = Some (match_group mm 1) \<and>
            tasks (scan_prefix lines (Suc n)) = tasks (scan_prefix lines n) @ [t] \<and>
            prefix (match_group mm 1) (id_tasks_book t)))"
proof (intro conjI impI)
  assume a: "current_main_id st = None \<and> \<not> answers_section st \<and>
      (re_match NEW_LINE_LETTER (normalize_line raw) \<noteq> None \<or>
       re_match NEW_LINE_NUMBERED (normalize_line raw) \<noteq> None)"
  then have nm: "re_match rx_main (normalize_line raw) = None"
    "re_match rx_three_level (normalize_line raw) = None"
    using new_line_not_main [of "normalize_line raw"] by simp_all
  from a heading_not_new_line have "normalize_line raw \<noteq> answers_heading" by auto
  with a nm show "loop_body lines i raw st = st"
    by (simp add: loop_body_def Let_def new_line_variant_None del: new_line_variant.simps)
next
  assume a: "n < length lines \<and> re_match rx_main (normalize_line (lines ! n)) = None \<and>
      tasks (scan_prefix lines (Suc n)) \<noteq> tasks (scan_prefix lines n)"
  then have n: "n < length lines" by simp
  from a loop_body_new_line_emit [of "lines ! n" lines n "scan_prefix lines n"]
  obtain m t where mt: "current_main_id (scan_prefix lines n) = Some m"
    "tasks (scan_prefix lines (Suc n)) = tasks (scan_prefix lines n) @ [t]"
    "prefix m (id_tasks_book t)"
    by (auto simp: scan_prefix_Suc)
  from register_origin [OF _ mt(1)] n obtain j mm where
    "j < n" "re_match rx_main (normalize_line (lines ! j)) = Some mm" "match_group mm 1 = m"
    by auto
  with mt show "\<exists>j<n. \<exists>mm t. re_match rx_main (normalize_line (lines ! j)) = Some mm \<and>
            current_main_id (scan_prefix lines n) = Some (match_group mm 1) \<and>
            tasks (scan_prefix lines (Suc n)) = tasks (scan_prefix lines n) @ [t] \<and>
            prefix (match_group mm 1) (id_tasks_book t)" by blast
qed

theorem sub_variant_needs_main_number_witness:
  "current_main_id initial_state = None \<and> \<not> answers_section initial_state \<and>
   re_match NEW_LINE_LETTER (normalize_line (1072 # U '') foo'')) \<noteq> None \<and>
   loop_body [U ''7. A'', 1072 # U '') foo''] 0 (1072 # U '') foo'') initial_state = initial_state \<and>
   1 < length [U ''7. A'', 1072 # U '') foo''] \<and>
   re_match rx_main (normalize_line ([U ''7. A'', 1072 # U '') foo''] ! 1)) = None \<and>
   tasks (scan_prefix [U ''7. A'', 1072 # U '') foo''] (Suc 1))
     \<noteq> tasks (scan_prefix [U ''7. A'', 1072 # U '') foo''] 1) \<and>
   (\<exists>j<1. \<exists>mm t. re_match rx_main (normalize_line ([U ''7. A'', 1072 # U '') foo''] ! j)) = Some mm \<and>
      current_main_id (scan_prefix [U ''7. A'', 1072 # U '') foo''] 1) = Some (match_group mm 1) \<and>
      tasks (scan_prefix [U ''7. A'', 1072 # U '') foo''] (Suc 1))
        = tasks (scan_prefix [U ''7. A'', 1072 # U '') foo''] 1) @ [t] \<and>
      prefix (match_group mm 1) (id_tasks_book t))"
  using sub_variant_needs_main_number
    [of initial_state "1072 # U '') foo''" "[U ''7. A'', 1072 # U '') foo'']" 0 1]
  by (simp add: rx_defs cls_defs re_defs task_defs)

subsection \<open>Bare main tasks\<close>

text \<open>
  Claim C2. Outside the answers section, let the normalized line be a main number \<open>N\<close>
  (digits), a dot and a rest whose text (the rest without the space around it) is not
  empty; let the line match neither the three-level dotted shape nor an inline
  sub-variant pattern, and let the next line, if there is one, not begin with \<open>N\<close>, a dot,
  digits and a dot. Then the iteration sets the current main number to \<open>N\<close> and emits
  exactly one record: its id is \<open>N\<close>, its text is the text after the number, and the other
  fields are the defaults.
\<close>

theorem bare_main_task:
  assumes "\<not> answers_section st"
    and "normalize_line raw = N @ 46 # rest" and "N \<noteq> []" and "\<forall>c\<in>set N. is_digit c"
    and "strip rest \<noteq> []"
    and "re_match rx_three_level (normalize_line raw) = None"
    and "re_match INLINE_LETTER (normalize_line raw) = None"
    and "re_match INLINE_NUMBERED (normalize_line raw) = None"
    and "\<not> (i + 1 < length lines \<and> re_match (rx_header N) (strip (lines ! (i + 1))) \<noteq> None)"
  shows "loop_body lines i raw st =
     st\<lparr>current_main_id := Some N,
        tasks := tasks st @
          [\<lparr>id_tasks_book = N, task = strip rest, answer = no_answer, classes = U ''5;6'',
            topic_id = 1, level = 1\<rparr>]\<rparr>"
  unfolding loop_body_main_line [OF assms(1-4,6)] inline_variant_None [OF assms(7,8)]
  using assms(5,9) by (simp add: create_task_def)

theorem bare_main_task_witness:
  "\<not> answers_section initial_state \<and>
   normalize_line (U ''12.  Solve  it '') = U ''12'' @ 46 # U '' Solve it'' \<and>
   is_digit 49 \<and> is_digit 50 \<and> strip (U '' Solve it'') = U ''Solve it'' \<and>
   re_match rx_three_level (normalize_line (U ''12.  Solve  it '')) = None \<and>
   re_match INLINE_LETTER (normalize_line (U ''12.  Solve  it '')) = None \<and>
   re_match INLINE_NUMBERED (normalize_line (U ''12.  Solve  it '')) = None \<and>
   re_match (rx_header (U ''12'')) (strip ([U ''12.  Solve  it '', U ''13.1. x''] ! (0 + 1))) = None \<and>
   loop_body [U ''12.  Solve  it '', U ''13.1. x''] 0 (U ''12.  Solve  it '') initial_state =
     initial_state\<lparr>current_main_id := Some (U ''12''),
        tasks := [\<lparr>id_tasks_book = U ''12'', task = U ''Solve it'', answer = no_answer,
                   classes = U ''5;6'', topic_id = 1, level = 1\<rparr>]\<rparr>"
  using bare_main_task
    [where st = initial_state and raw = "U ''12.  Solve  it ''" and N = "U ''12''"
       and rest = "U '' Solve it''" and i = 0 and lines = "[U ''12.  Solve  it '', U ''13.1. x'']"]
  by (simp add: rx_defs cls_defs re_defs task_defs)

subsection \<open>Inline letter sub-variants\<close>

text \<open>
  Claim C3, as stated, fails: a line of the shape "N.letter) text" whose next line begins
  with N, a dot, digits and a dot is taken for a section header and emits no record.
  Here the line "1.(U+0430)) foo" is followed by "1.1. bar", and no record is emitted.
\<close>

theorem inline_letter_before_deeper_line:
  "extract_tasks_from_docx [U ''1.'' @ 1072 # U '') foo'', U ''1.1. bar''] = [] \<and>
   tasks (loop_body [U ''1.'' @ 1072 # U '') foo'', U ''1.1. bar''] 0
            (U ''1.'' @ 1072 # U '') foo'') initial_state) = []"
  by (simp add: rx_defs cls_defs re_defs task_defs)

text \<open>
  Claim C3, amended. Outside the answers section, let the normalized line be a main number
  \<open>N\<close>, a dot, optional space, a letter of the (case-insensitive) Cyrillic class, a closing
  parenthesis and a rest whose text is not empty. When the next line begins with \<open>N\<close>, a
  dot, digits and a dot, the iteration only sets the current main number. Otherwise it
  emits exactly one record: its id is \<open>N\<close>, a dot and the letter as written, and its text
  is a tab followed by the text after the parenthesis.
\<close>

theorem inline_letter_sub_variant:
  assumes "\<not> answers_section st"
    and "normalize_line raw = N @ 46 # sp @ l # 41 # rest" and "N \<noteq> []"
    and "\<forall>c\<in>set N. is_digit c" and "\<forall>c\<in>set sp. is_space c" and "is_letter_ic l"
    and "strip rest \<noteq> []"
  shows "loop_body lines i raw st =
     (if i + 1 < length lines \<and> re_match (rx_header N) (strip (lines ! (i + 1))) \<noteq> None
      then st\<lparr>current_main_id := Some N\<rparr>
      else st\<lparr>current_main_id := Some N,
              tasks := tasks st @
                [\<lparr>id_tasks_book = N @ 46 # [l], task = 9 # strip rest, answer = no_answer,
                  classes = U ''5;6'', topic_id = 1, level = 1\<rparr>]\<rparr>)"
proof -
  let ?line = "normalize_line raw"
  have nd: "takeWhile is_digit (sp @ l # 41 # rest) = []"
  proof (cases sp)
    case Nil
    with assms(6) show ?thesis by (simp add: letter_not_digit)
  next
    case (Cons c cs)
    with assms(5) show ?thesis by (simp add: space_not_digit)
  qed
  have d: "takeWhile is_digit ?line = N" "dropWhile is_digit ?line = 46 # sp @ l # 41 # rest"
    unfolding assms(2) using assms(4) by (simp_all add: digits_prefix)
  have n3: "re_match rx_three_level ?line = None"
    using three_level_iff [of ?line] nd unfolding d by auto
  from strip_nonempty [OF assms(7)] have ne: "dropWhile is_space rest \<noteq> []" .
  from inline_letter_match [OF assms(3,4,5,6) ne] obtain vm where
    vm: "re_match INLINE_LETTER ?line = Some vm" "match_group vm 2 = [l]"
      "match_group vm 3 = takeWhile is_dot (dropWhile is_space rest)"
    unfolding assms(2) by blast
  have "\<forall>c\<in>set (dropWhile is_space rest). is_dot c"
    using normalize_line_dot [of _ raw] unfolding assms(2) by (auto dest: set_dropWhileD)
  then have "takeWhile is_dot (dropWhile is_space rest) = dropWhile is_space rest"
    by (rule takeWhile_dot_id)
  with vm have body: "strip (match_group vm 3) = strip rest" by (simp add: strip_dropWhile)
  have inl: "inline_variant [(INLINE_LETTER, 2), (INLINE_NUMBERED, 2)] ?line N =
      Some (create_task N (Some [l]) (strip rest) True)"
    using vm(1,2) body by simp
  show ?thesis
    unfolding loop_body_main_line [OF assms(1,2,3,4) n3] inl
    by (simp add: create_task_def)
qed

theorem inline_letter_sub_variant_witness:
  "\<not> answers_section initial_state \<and>
   normalize_line (U ''7. '' @ 1040 # U '')  foo'') = U ''7'' @ 46 # U '' '' @ 1040 # 41 # U '' foo'' \<and>
   is_digit 55 \<and> is_space 32 \<and> is_letter_ic 1040 \<and> strip (U '' foo'') = U ''foo'' \<and>
   loop_body [U ''7. '' @ 1040 # U '')  foo''] 0 (U ''7. '' @ 1040 # U '')  foo'') initial_state =
     initial_state\<lparr>current_main_id := Some (U ''7''),
        tasks := [\<lparr>id_tasks_book = U ''7.'' @ [1040], task = 9 # U ''foo'', answer = no_answer,
                   classes = U ''5;6'', topic_id = 1, level = 1\<rparr>]\<rparr>"
  using inline_letter_sub_variant
    [where st = initial_state and raw = "U ''7. '' @ 1040 # U '')  foo''" and N = "U ''7''"
       and sp = "U '' ''" and l = 1040 and rest = "U '' foo''" and i = 0
       and lines = "[U ''7. '' @ 1040 # U '')  foo'']"]
  by (simp add: rx_defs cls_defs re_defs task_defs)

subsection \<open>A document without the heading of the answers\<close>

text \<open>
  Claim C7, as stated, fails in its last part: a document without the heading can contain
  task-shaped lines and still give an empty task list. The line "(U+0430)) foo" matches
  the new-line letter pattern, but no main number precedes it; the line "1. Title" is a
  main-number line, but the next line "1.1. sub" makes it a section header.
\<close>

theorem no_heading_task_list_empty:
  "normalize_line (1072 # U '') foo'') \<noteq> answers_heading \<and>
   re_match NEW_LINE_LETTER (normalize_line (1072 # U '') foo'')) \<noteq> None \<and>
   extract_tasks_from_docx [1072 # U '') foo''] = [] \<and>
   normalize_line (U ''1. Title'') \<noteq> answers_heading \<and>
   normalize_line (U ''1.1. sub'') \<noteq> answers_heading \<and>
   re_match rx_main (normalize_line (U ''1. Title'')) \<noteq> None \<and>
   extract_tasks_from_docx [U ''1. Title'', U ''1.1. sub''] = []"
  by (simp add: rx_defs cls_defs re_defs task_defs)

text \<open>
  Claim C7, amended. When no line is, after normalization, the heading of the answers, the
  answer mapping stays empty, the returned records are the task list as the loop built it,
  and every record has the default answer. The list is not empty exactly when some line
  is a main number with a text (not of the three-level shape, and not followed by a deeper
  line of its number), or some line matches a new-line sub-variant pattern and comes after
  a line that begins with a main number and a dot (and is not of the three-level shape).
\<close>

theorem no_heading_no_answers:
  assumes "\<forall>l\<in>set (stripped_lines paragraphs). normalize_line l \<noteq> answers_heading"
  shows "all_answers (scan_document paragraphs) = Map.empty \<and>
         extract_tasks_from_docx paragraphs = tasks (scan_document paragraphs) \<and>
         (\<forall>t\<in>set (extract_tasks_from_docx paragraphs). answer t = no_answer) \<and>
         (extract_tasks_from_docx paragraphs \<noteq> [] \<longleftrightarrow>
            (\<exists>i<length (stripped_lines paragraphs).
               (\<exists>N rest. normalize_line (stripped_lines paragraphs ! i) = N @ 46 # rest \<and> N \<noteq> [] \<and>
                  (\<forall>c\<in>set N. is_digit c) \<and> strip rest \<noteq> [] \<and>
                  re_match rx_three_level (normalize_line (stripped_lines paragraphs ! i)) = None \<and>
                  \<not> (i + 1 < length (stripped_lines paragraphs) \<and>
                     re_match (rx_header N) (strip (stripped_lines paragraphs ! (i + 1))) \<noteq> None)) \<or>
               ((re_match NEW_LINE_LETTER (normalize_line (stripped_lines paragraphs ! i)) \<noteq> None \<or>
                 re_match NEW_LINE_NUMBERED (normalize_line (stripped_lines paragraphs ! i)) \<noteq> None) \<and>
                (\<exists>j<i. \<exists>N rest. normalize_line (stripped_lines paragraphs ! j) = N @ 46 # rest \<and>
                   N \<noteq> [] \<and> (\<forall>c\<in>set N. is_digit c) \<and>
                   re_match rx_three_level (normalize_line (stripped_lines paragraphs ! j)) = None))))"
proof -
  let ?lines = "stripped_lines paragraphs"
  let ?A = "\<lambda>i. \<exists>N rest. normalize_line (?lines ! i) = N @ 46 # rest \<and> N \<noteq> [] \<and>
                  (\<forall>c\<in>set N. is_digit c) \<and> strip rest \<noteq> [] \<and>
                  re_match rx_three_level (normalize_line (?lines ! i)) = None \<and>
                  \<not> (i + 1 < length ?lines \<and>
                     re_match (rx_header N) (strip (?lines ! (i + 1))) \<noteq> None)"
  let ?B = "\<lambda>i. (re_match NEW_LINE_LETTER (normalize_line (?lines ! i)) \<noteq> None \<or>
                 re_match NEW_LINE_NUMBERED (normalize_line (?lines ! i)) \<noteq> None) \<and>
                (\<exists>j<i. \<exists>N rest. normalize_line (?lines ! j) = N @ 46 # rest \<and>
                   N \<noteq> [] \<and> (\<forall>c\<in>set N. is_digit c) \<and>
                   re_match rx_three_level (normalize_line (?lines ! j)) = None)"
  have doc: "scan_document paragraphs = scan_prefix ?lines (length ?lines)"
    by (simp add: scan_document_def Let_def)
  from scan_prefix_no_heading [OF assms, of "length ?lines"]
  have fin: "\<not> answers_section (scan_document paragraphs)"
    "all_answers (scan_document paragraphs) = Map.empty"
    "\<forall>t\<in>set (tasks (scan_document paragraphs)). answer t = no_answer"
    unfolding doc by simp_all
  have ex: "extract_tasks_from_docx paragraphs = tasks (scan_document paragraphs)"
    by (simp add: extract_tasks_from_docx_def Let_def fin(2) merge_answers_empty)
  have na: "\<not> answers_section (scan_prefix ?lines i)" if "i < length ?lines" for i
    using scan_prefix_no_heading [OF assms, of i] that by simp
  have grow: "tasks (scan_document paragraphs) \<noteq> []"
    if i: "i < length ?lines"
      and len: "length (tasks (scan_prefix ?lines (Suc i))) = Suc (length (tasks (scan_prefix ?lines i)))"
    for i
  proof -
    have "length (tasks (scan_prefix ?lines (Suc i)))
        \<le> length (tasks (scan_prefix ?lines (length ?lines)))"
      using i by (intro tasks_length_mono) simp_all
    with len show ?thesis unfolding doc by auto
  qed
  have right: "tasks (scan_document paragraphs) \<noteq> []" if i: "i < length ?lines" and AB: "?A i \<or> ?B i" for i
    using AB
  proof
    assume "?A i"
    then obtain N rest where
      h: "normalize_line (?lines ! i) = N @ 46 # rest" "N \<noteq> []" "\<forall>c\<in>set N. is_digit c"
        "re_match rx_three_level (normalize_line (?lines ! i)) = None"
        "strip rest \<noteq> []"
        "\<not> (i + 1 < length ?lines \<and> re_match (rx_header N) (strip (?lines ! (i + 1))) \<noteq> None)"
      by blast
    from loop_body_main_line_emits [OF na [OF i] h] i
    have "length (tasks (scan_prefix ?lines (Suc i))) = Suc (length (tasks (scan_prefix ?lines i)))"
      by (simp add: scan_prefix_Suc)
    with i show ?thesis by (rule grow)
  next
    assume B: "?B i"
    then have nl: "re_match NEW_LINE_LETTER (normalize_line (?lines ! i)) \<noteq> None \<or>
        re_match NEW_LINE_NUMBERED (normalize_line (?lines ! i)) \<noteq> None" by blast
    from B obtain j N rest where j: "j < i"
      and h: "normalize_line (?lines ! j) = N @ 46 # rest" "N \<noteq> []" "\<forall>c\<in>set N. is_digit c"
        "re_match rx_three_level (normalize_line (?lines ! j)) = None"
      by blast
    from register_after_main_line [OF assms h j] i
    obtain m where m: "current_main_id (scan_prefix ?lines i) = Some m" "m \<noteq> []" by auto
    from new_line_not_main [OF nl]
    have nm: "re_match rx_main (normalize_line (?lines ! i)) = None"
      "re_match rx_three_level (normalize_line (?lines ! i)) = None" by simp_all
    from assms i have nh: "normalize_line (?lines ! i) \<noteq> answers_heading" by simp
    from loop_body_new_line [OF na [OF i] nh nm(2) nm(1), of ?lines i]
      new_line_variant_match [OF m nl] i
    have "length (tasks (scan_prefix ?lines (Suc i))) = Suc (length (tasks (scan_prefix ?lines i)))"
      by (simp add: scan_prefix_Suc)
    with i show ?thesis by (rule grow)
  qed
  have left: "\<exists>i<length ?lines. ?A i \<or> ?B i" if ne: "tasks (scan_document paragraphs) \<noteq> []"
  proof -
    from tasks_first_change [of "length ?lines" ?lines] ne obtain i where i: "i < length ?lines"
      and ch: "tasks (scan_prefix ?lines (Suc i)) \<noteq> tasks (scan_prefix ?lines i)"
      unfolding doc by auto
    from assms i have nh: "normalize_line (?lines ! i) \<noteq> answers_heading" by simp
    from ch i have "tasks (loop_body ?lines i (?lines ! i) (scan_prefix ?lines i))
        \<noteq> tasks (scan_prefix ?lines i)" by (simp add: scan_prefix_Suc)
    from loop_body_emits_shape [OF na [OF i] nh this] have "?A i \<or> ?B i"
    proof
      assume "\<exists>N rest. normalize_line (?lines ! i) = N @ 46 # rest \<and> N \<noteq> [] \<and>
          (\<forall>c\<in>set N. is_digit c) \<and> strip rest \<noteq> [] \<and>
          re_match rx_three_level (normalize_line (?lines ! i)) = None \<and>
          \<not> (i + 1 < length ?lines \<and> re_match (rx_header N) (strip (?lines ! (i + 1))) \<noteq> None)"
      then show ?thesis by blast
    next
      assume b: "(re_match NEW_LINE_LETTER (normalize_line (?lines ! i)) \<noteq> None \<or>
           re_match NEW_LINE_NUMBERED (normalize_line (?lines ! i)) \<noteq> None) \<and>
          (\<exists>m. current_main_id (scan_prefix ?lines i) = Some m \<and> m \<noteq> [])"
      then obtain m where m: "current_main_id (scan_prefix ?lines i) = Some m" by blast
      from register_origin_shape [OF _ m] i obtain j where "j < i"
        "re_match rx_three_level (normalize_line (?lines ! j)) = None \<and>
         (\<exists>rest. normalize_line (?lines ! j) = m @ 46 # rest) \<and> m \<noteq> [] \<and> (\<forall>c\<in>set m. is_digit c)"
        by auto
      then have "\<exists>j<i. \<exists>N rest. normalize_line (?lines ! j) = N @ 46 # rest \<and>
                   N \<noteq> [] \<and> (\<forall>c\<in>set N. is_digit c) \<and>
                   re_match rx_three_level (normalize_line (?lines ! j)) = None" by blast
      with b show ?thesis by blast
    qed
    with i show ?thesis by blast
  qed
  have "tasks (scan_document paragraphs) \<noteq> [] \<longleftrightarrow> (\<exists>i<length ?lines. ?A i \<or> ?B i)"
    using left right by blast
  with fin ex show ?thesis by simp
qed

theorem no_heading_no_answers_witness:
  "stripped_lines [U ''2.'', 1072 # U '') x''] = [U ''2.'', 1072 # U '') x''] \<and>
   normalize_line (U ''2.'') \<noteq> answers_heading \<and>
   normalize_line (1072 # U '') x'') \<noteq> answers_heading \<and>
   all_answers (scan_document [U ''2.'', 1072 # U '') x'']) = Map.empty \<and>
   extract_tasks_from_docx [U ''2.'', 1072 # U '') x''] = tasks (scan_document [U ''2.'', 1072 # U '') x'']) \<and>
   map answer (extract_tasks_from_docx [U ''2.'', 1072 # U '') x'']) = [no_answer] \<and>
   map id_tasks_book (extract_tasks_from_docx [U ''2.'', 1072 # U '') x'']) = [U ''2.'' @ [1072]] \<and>
   re_match NEW_LINE_LETTER (normalize_line ([U ''2.'', 1072 # U '') x''] ! 1)) \<noteq> None \<and>
   normalize_line ([U ''2.'', 1072 # U '') x''] ! 0) = U ''2'' @ 46 # [] \<and>
   re_match rx_three_level (normalize_line ([U ''2.'', 1072 # U '') x''] ! 0)) = None"
proof -
  have h: "\<forall>l\<in>set (stripped_lines [U ''2.'', 1072 # U '') x'']). normalize_line l \<noteq> answers_heading"
    by (simp add: rx_defs cls_defs re_defs task_defs)
  note t = no_heading_no_answers [OF h]
  from t have 1: "all_answers (scan_document [U ''2.'', 1072 # U '') x'']) = Map.empty" by blast
  from t have 2: "extract_tasks_from_docx [U ''2.'', 1072 # U '') x'']
      = tasks (scan_document [U ''2.'', 1072 # U '') x''])" by blast
  have 3: "stripped_lines [U ''2.'', 1072 # U '') x''] = [U ''2.'', 1072 # U '') x''] \<and>
   normalize_line (U ''2.'') \<noteq> answers_heading \<and>
   normalize_line (1072 # U '') x'') \<noteq> answers_heading \<and>
   map answer (extract_tasks_from_docx [U ''2.'', 1072 # U '') x'']) = [no_answer] \<and>
   map id_tasks_book (extract_tasks_from_docx [U ''2.'', 1072 # U '') x'']) = [U ''2.'' @ [1072]] \<and>
   re_match NEW_LINE_LETTER (normalize_line ([U ''2.'', 1072 # U '') x''] ! 1)) \<noteq> None \<and>
   normalize_line ([U ''2.'', 1072 # U '') x''] ! 0) = U ''2'' @ 46 # [] \<and>
   re_match rx_three_level (normalize_line ([U ''2.'', 1072 # U '') x''] ! 0)) = None"
    by (simp add: rx_defs cls_defs re_defs task_defs)
  from 1 2 3 show ?thesis by blast
qed

subsection \<open>The current main number\<close>

text \<open>
  Claim C10. Outside the answers section, a line that begins with a main number \<open>N\<close> and a
  dot (and is not of the three-level shape) sets the current main number to \<open>N\<close>, also
  when it emits no record: when nothing but space follows the dot, and when the next line
  begins with \<open>N\<close>, a dot, digits and a dot. A later new-line sub-variant line (a letter,
  or digits, before a closing parenthesis and a text) met with this main number emits the
  record of the number, a dot and the variant.
\<close>

theorem main_number_register:
  "(\<not> answers_section st \<and> normalize_line raw = N @ 46 # rest \<and> N \<noteq> [] \<and>
      (\<forall>c\<in>set N. is_digit c) \<and> re_match rx_three_level (normalize_line raw) = None
     \<longrightarrow> current_main_id (loop_body lines i raw st) = Some N \<and>
         (strip rest = [] \<longrightarrow> loop_body lines i raw st = st\<lparr>current_main_id := Some N\<rparr>) \<and>
         (i + 1 < length lines \<and> re_match (rx_header N) (strip (lines ! (i + 1))) \<noteq> None
            \<longrightarrow> loop_body lines i raw st = st\<lparr>current_main_id := Some N\<rparr>)) \<and>
   (\<not> answers_section st2 \<and> current_main_id st2 = Some M \<and> M \<noteq> [] \<and>
      normalize_line raw2 = l # 41 # rest2 \<and> is_letter_ic l \<and> strip rest2 \<noteq> []
     \<longrightarrow> loop_body lines j raw2 st2 =
          st2\<lparr>tasks := tasks st2 @
            [\<lparr>id_tasks_book = M @ 46 # [l], task = 9 # strip rest2, answer = no_answer,
              classes = U ''5;6'', topic_id = 1, level = 1\<rparr>]\<rparr>) \<and>
   (\<not> answers_section st3 \<and> current_main_id st3 = Some K \<and> K \<noteq> [] \<and>
      normalize_line raw3 = D @ 41 # rest3 \<and> D \<noteq> [] \<and> (\<forall>c\<in>set D. is_digit c) \<and>
      takeWhile is_space rest3 \<noteq> [] \<and> strip rest3 \<noteq> []
     \<longrightarrow> loop_body lines k raw3 st3 =
          st3\<lparr>tasks := tasks st3 @
            [\<lparr>id_tasks_book = K @ 46 # D, task = 9 # strip rest3, answer = no_answer,
              classes = U ''5;6'', topic_id = 1, level = 1\<rparr>]\<rparr>)"
proof (intro conjI impI)
  assume a: "\<not> answers_section st \<and> normalize_line raw = N @ 46 # rest \<and> N \<noteq> [] \<and>
      (\<forall>c\<in>set N. is_digit c) \<and> re_match rx_three_level (normalize_line raw) = None"
  then have a1: "\<not> answers_section st" and a2: "normalize_line raw = N @ 46 # rest"
    and a3: "N \<noteq> []" and a4: "\<forall>c\<in>set N. is_digit c"
    and a5: "re_match rx_three_level (normalize_line raw) = None" by blast+
  have lb: "loop_body lines i raw st =
     (if i + 1 < length lines \<and> re_match (rx_header N) (strip (lines ! (i + 1))) \<noteq> None
      then st\<lparr>current_main_id := Some N\<rparr>
      else case inline_variant [(INLINE_LETTER, 2), (INLINE_NUMBERED, 2)] (normalize_line raw) N of
             Some t \<Rightarrow> st\<lparr>current_main_id := Some N, tasks := tasks st @ [t]\<rparr>
           | None \<Rightarrow>
               if strip rest \<noteq> [] then
                 st\<lparr>current_main_id := Some N,
                    tasks := tasks st @ [create_task N None (strip rest) False]\<rparr>
               else st\<lparr>current_main_id := Some N\<rparr>)"
    by (rule loop_body_main_line [OF a1 a2 a3 a4 a5])
  show "current_main_id (loop_body lines i raw st) = Some N"
    unfolding lb by (simp split: option.splits del: inline_variant.simps)
  {
    assume "i + 1 < length lines \<and> re_match (rx_header N) (strip (lines ! (i + 1))) \<noteq> None"
    then show "loop_body lines i raw st = st\<lparr>current_main_id := Some N\<rparr>"
      unfolding lb by (simp del: inline_variant.simps)
  }
  {
    assume e: "strip rest = []"
    have d: "takeWhile is_digit (normalize_line raw) \<noteq> []"
      "dropWhile is_digit (normalize_line raw) = 46 # rest"
      unfolding a2 using a3 a4 by (simp_all add: digits_prefix)
    from inline_none_without_text [OF d strip_empty [OF e]]
    have "inline_variant [(INLINE_LETTER, 2), (INLINE_NUMBERED, 2)] (normalize_line raw) N = None"
      by simp
    with e show "loop_body lines i raw st = st\<lparr>current_main_id := Some N\<rparr>"
      unfolding lb by (simp del: inline_variant.simps)
  }
next
  assume a: "\<not> answers_section st2 \<and> current_main_id st2 = Some M \<and> M \<noteq> [] \<and>
      normalize_line raw2 = l # 41 # rest2 \<and> is_letter_ic l \<and> strip rest2 \<noteq> []"
  let ?line = "normalize_line raw2"
  from a have line: "?line = l # 41 # rest2" and l: "is_letter_ic l" by simp_all
  from a strip_nonempty have ne: "dropWhile is_space rest2 \<noteq> []" by blast
  from new_line_letter_match [OF l ne] obtain vm where
    vm: "re_match NEW_LINE_LETTER ?line = Some vm" "match_group vm 1 = [l]"
      "match_group vm 2 = takeWhile is_dot (dropWhile is_space rest2)"
    unfolding line by blast
  have "\<forall>c\<in>set (dropWhile is_space rest2). is_dot c"
    using normalize_line_dot [of _ raw2] unfolding line by (auto dest: set_dropWhileD)
  then have "takeWhile is_dot (dropWhile is_space rest2) = dropWhile is_space rest2"
    by (rule takeWhile_dot_id)
  with vm have body: "strip (match_group vm 2) = strip rest2" by (simp add: strip_dropWhile)
  from vm(1) have nm: "re_match rx_main ?line = None" "re_match rx_three_level ?line = None"
    using new_line_not_main [of ?line] by simp_all
  from vm(1) heading_not_new_line(1) have nh: "?line \<noteq> answers_heading" by auto
  from a have na: "\<not> answers_section st2" by blast
  have "loop_body lines j raw2 st2 =
     new_line_variant [(NEW_LINE_LETTER, 1), (NEW_LINE_NUMBERED, 1)] ?line st2"
    by (rule loop_body_new_line [OF na nh nm(2) nm(1)])
  with a vm(1,2) body show "loop_body lines j raw2 st2 =
          st2\<lparr>tasks := tasks st2 @
            [\<lparr>id_tasks_book = M @ 46 # [l], task = 9 # strip rest2, answer = no_answer,
              classes = U ''5;6'', topic_id = 1, level = 1\<rparr>]\<rparr>"
    by (simp add: create_task_def)
next
  assume a: "\<not> answers_section st3 \<and> current_main_id st3 = Some K \<and> K \<noteq> [] \<and>
      normalize_line raw3 = D @ 41 # rest3 \<and> D \<noteq> [] \<and> (\<forall>c\<in>set D. is_digit c) \<and>
      takeWhile is_space rest3 \<noteq> [] \<and> strip rest3 \<noteq> []"
  let ?line = "normalize_line raw3"
  from a have line: "?line = D @ 41 # rest3" and D: "D \<noteq> []" "\<forall>c\<in>set D. is_digit c"
    and sp: "takeWhile is_space rest3 \<noteq> []" by simp_all
  from a strip_nonempty have ne: "dropWhile is_space rest3 \<noteq> []" by blast
  from new_line_numbered_match [OF D sp ne] obtain vm where
    vm: "re_match NEW_LINE_NUMBERED ?line = Some vm" "match_group vm 1 = D"
      "match_group vm 2 = takeWhile is_dot (dropWhile is_space rest3)"
    unfolding line by blast
  have "\<forall>c\<in>set (dropWhile is_space rest3). is_dot c"
    using normalize_line_dot [of _ raw3] unfolding line by (auto dest: set_dropWhileD)
  then have "takeWhile is_dot (dropWhile is_space rest3) = dropWhile is_space rest3"
    by (rule takeWhile_dot_id)
  with vm have body: "strip (match_group vm 2) = strip rest3" by (simp add: strip_dropWhile)
  from vm(1) have nm: "re_match rx_main ?line = None" "re_match rx_three_level ?line = None"
    using new_line_not_main [of ?line] by simp_all
  from vm(1) heading_not_new_line(2) have nh: "?line \<noteq> answers_heading" by auto
  have nl: "re_match NEW_LINE_LETTER ?line = None"
  proof (rule ccontr)
    assume "re_match NEW_LINE_LETTER ?line \<noteq> None"
    from new_line_letter_shape [OF this] obtain x r where
      x: "dropWhile is_space ?line = x # r" "is_letter_ic x" by blast
    from D obtain d ds where dd: "D = d # ds" "is_digit d" by (cases D) auto
    then have "\<not> is_space d" using space_not_digit by blast
    with dd x line have "x = d" by simp
    with x(2) dd(2) letter_not_digit show False by blast
  qed
  from a have na: "\<not> answers_section st3" by blast
  have "loop_body lines k raw3 st3 =
     new_line_variant [(NEW_LINE_LETTER, 1), (NEW_LINE_NUMBERED, 1)] ?line st3"
    by (rule loop_body_new_line [OF na nh nm(2) nm(1)])
  with a vm(1,2) nl body D(1) show "loop_body lines k raw3 st3 =
          st3\<lparr>tasks := tasks st3 @
            [\<lparr>id_tasks_book = K @ 46 # D, task = 9 # strip rest3, answer = no_answer,
              classes = U ''5;6'', topic_id = 1, level = 1\<rparr>]\<rparr>"
    by (simp add: create_task_def)
qed

theorem main_number_register_witness:
  "\<not> answers_section initial_state \<and> normalize_line (U ''2.'') = U ''2'' @ 46 # [] \<and>
   is_digit 50 \<and> re_match rx_three_level (normalize_line (U ''2.'')) = None \<and>
   strip [] = ([] :: ustring) \<and>
   re_match (rx_header (U ''2''))
     (strip ([U ''2.'', U ''2.1. sub'', 1072 # U '') foo'', U ''3) bar''] ! (0 + 1))) \<noteq> None \<and>
   loop_body [U ''2.'', U ''2.1. sub'', 1072 # U '') foo'', U ''3) bar''] 0 (U ''2.'') initial_state
     = initial_state\<lparr>current_main_id := Some (U ''2'')\<rparr> \<and>
   normalize_line (1072 # U '') foo'') = 1072 # 41 # U '' foo'' \<and> is_letter_ic 1072 \<and>
   tasks (loop_body [U ''2.'', U ''2.1. sub'', 1072 # U '') foo'', U ''3) bar''] 2 (1072 # U '') foo'')
            (initial_state\<lparr>current_main_id := Some (U ''2'')\<rparr>))
     = [\<lparr>id_tasks_book = U ''2.'' @ [1072], task = 9 # U ''foo'', answer = no_answer,
         classes = U ''5;6'', topic_id = 1, level = 1\<rparr>] \<and>
   normalize_line (U ''3) bar'') = U ''3'' @ 41 # U '' bar'' \<and> is_digit 51 \<and>
   tasks (loop_body [U ''2.'', U ''2.1. sub'', 1072 # U '') foo'', U ''3) bar''] 3 (U ''3) bar'')
            (initial_state\<lparr>current_main_id := Some (U ''2'')\<rparr>))
     = [\<lparr>id_tasks_book = U ''2.3'', task = 9 # U ''bar'', answer = no_answer,
         classes = U ''5;6'', topic_id = 1, level = 1\<rparr>] \<and>
   map id_tasks_book
     (extract_tasks_from_docx [U ''2.'', U ''2.1. sub'', 1072 # U '') foo'', U ''3) bar''])
     = [U ''2.'' @ [1072], U ''2.3'']"
  using main_number_register
    [where st = initial_state and raw = "U ''2.''" and N = "U ''2''" and rest = "[]" and i = 0
       and lines = "[U ''2.'', U ''2.1. sub'', 1072 # U '') foo'', U ''3) bar'']"
       and ?st2.0 = "initial_state\<lparr>current_main_id := Some (U ''2'')\<rparr>" and M = "U ''2''"
       and ?raw2.0 = "1072 # U '') foo''" and l = 1072 and ?rest2.0 = "U '' foo''" and j = 2
       and ?st3.0 = "initial_state\<lparr>current_main_id := Some (U ''2'')\<rparr>" and K = "U ''2''"
       and ?raw3.0 = "U ''3) bar''" and D = "U ''3''" and ?rest3.0 = "U '' bar''" and k = 3]
  by (simp add: rx_defs cls_defs re_defs task_defs)

end
